theory Spec2Isabelle
  imports Main "HOL-Library.AList" "HOL-Library.Multiset"
begin

section \<open>The crawl server: data model\<close>

text \<open>
  The server keeps one process-wide set of visited addresses (\<open>urlCache\<close>), a table of
  limits (\<open>LIMITS\<close>), a page fetcher built on a headless browser (\<open>getPageInfo\<close>) and
  the breadth-first crawl (\<open>crawlKHops\<close>) behind the route \<open>POST /api/crawl\<close>.
  Addresses and titles are JavaScript strings.
\<close>

type_synonym url = string

text \<open>
  The table \<open>LIMITS\<close>. The crawl reads \<open>TOTAL_NODES\<close> and \<open>CONCURRENT_FETCHES\<close>; the other
  two are used inside the browser. The functions below take the table as an argument,
  so that a statement can be about any limits and about those of the source.
\<close>

record limits =
  LINKS_PER_PAGE :: nat
  TOTAL_NODES :: nat
  PAGE_TIMEOUT :: nat
  CONCURRENT_FETCHES :: nat

definition LIMITS :: limits where
  "LIMITS = \<lparr>LINKS_PER_PAGE = 20, TOTAL_NODES = 50, PAGE_TIMEOUT = 3000,
     CONCURRENT_FETCHES = 5\<rparr>"

text \<open>The object \<open>{title, links, favicon}\<close> that \<open>getPageInfo\<close> resolves to.\<close>

record pageInfo =
  title :: string
  links :: "string list"
  favicon :: "string option"

text \<open>
  A queue or batch element \<open>{url, depth}\<close>. Depths are integers, and so is the maximal
  depth \<open>k\<close> of a crawl throughout: an integer, as the interface of the crawl has it,
  of either sign. (A \<open>k\<close> with a fraction is outside this model; the guard of the second
  pass, \<open>depth < k\<close>, would then let through a depth above \<open>k\<close>.)
\<close>

record entry =
  url :: url
  depth :: int

text \<open>A value of the \<open>nodes\<close> map: \<open>{id, title, favicon}\<close>.\<close>

record node =
  node_id :: url
  node_title :: string
  node_favicon :: "string option"

text \<open>
  The outcome of one promise under \<open>Promise.allSettled\<close>: \<open>status === 'fulfilled'\<close>
  with its value, or rejected.
\<close>

datatype 'a settled = fulfilled 'a | rejected

text \<open>
  The variables of \<open>crawlKHops\<close> together with the module-level \<open>urlCache\<close>.
  \<open>nodes\<close> is a JavaScript \<open>Map\<close> (insertion-ordered, \<open>set\<close> on a present key keeps its
  place), \<open>link_set\<close> is the \<open>Set\<close> called \<open>links\<close> in the source, whose elements are
  the JSON texts of \<open>{source: {id}, target: {id}}\<close>; the text determines the pair of
  addresses and back, so the element is kept as the pair. \<open>dispatched\<close> is the log of
  the calls of \<open>getPageInfo\<close>, in call order, each with the depth of its batch element.
\<close>

record crawl_state =
  nodes :: "(url \<times> node) list"
  link_set :: "(url \<times> url) list"
  queue :: "entry list"
  processedCount :: nat
  urlCache :: "url set"
  dispatched :: "entry list"

text \<open>
  What one run of the browser does for one address: whether \<open>puppeteer.launch\<close>
  succeeds (it is called before the \<open>try\<close>), what the \<open>try\<close> block does (\<open>Some\<close> of the
  page information it returns, \<open>None\<close> when anything in it throws: a timeout, a network or
  a navigation error), and whether \<open>browser.close\<close> in the \<open>finally\<close> block succeeds.
\<close>

record browser_run =
  launch_ok :: bool
  body :: "pageInfo option"
  close_ok :: bool

text \<open>
  The world outside the crawl: \<open>new_URL s\<close> is \<open>new URL(s).toString()\<close>, \<open>None\<close> when
  the constructor throws; \<open>puppeteer\<close> is the behaviour of the browser on each address
  (the same whenever it is asked); \<open>internal_error n\<close> tells whether the runtime raises
  an error in the crawl loop while it handles the batch that brought the number of
  started fetches to \<open>n\<close>. No statement of the loop raises on purpose and the errors of
  \<open>new URL\<close> are caught where they arise; the \<open>catch\<close> around the loop is for errors of
  the runtime, a \<open>Map\<close> or \<open>Set\<close> that cannot grow, say.
\<close>

record env =
  new_URL :: "string \<Rightarrow> url option"
  puppeteer :: "url \<Rightarrow> browser_run"
  internal_error :: "nat \<Rightarrow> bool"

section \<open>The page fetcher\<close>

definition getPageInfo :: "env \<Rightarrow> url \<Rightarrow> pageInfo settled" where
  "getPageInfo E u =
     (let run = puppeteer E u in
      if \<not> launch_ok run then rejected
      else
        let result = (case body run of
                        Some pageInfo \<Rightarrow> pageInfo
                      | None \<Rightarrow> \<lparr>title = u, links = [], favicon = None\<rparr>)
        in if close_ok run then fulfilled result else rejected)"

section \<open>The crawl\<close>

text \<open>
  The inner \<open>while\<close> loop that fills a batch from the front of the queue. It returns the
  batch, the rest of the queue and the visited set. (\<open>queue.shift()\<close> on a queue that is
  not empty gives an element, so \<open>if (!next) break\<close> is never taken.)
\<close>

fun fill_batch ::
  "env \<Rightarrow> nat \<Rightarrow> url \<Rightarrow> int \<Rightarrow> entry list \<Rightarrow> url set \<Rightarrow> entry list
   \<Rightarrow> entry list \<times> entry list \<times> url set" where
  "fill_batch E c startUrl k [] cache batch = (batch, [], cache)"
| "fill_batch E c startUrl k (next # q) cache batch =
     (if length batch < c then
        (if depth next > k then fill_batch E c startUrl k q cache batch
         else
           (case new_URL E (url next) of
              None \<Rightarrow> fill_batch E c startUrl k q cache batch
            | Some normalizedUrl \<Rightarrow>
                if normalizedUrl = startUrl \<or> normalizedUrl \<notin> cache
                then fill_batch E c startUrl k q (insert normalizedUrl cache)
                       (batch @ [next\<lparr>url := normalizedUrl\<rparr>])
                else fill_batch E c startUrl k q cache batch))
      else (batch, next # q, cache))"

text \<open>\<open>Promise.allSettled(batch.map(...))\<close>: one outcome for each batch element, in order.\<close>

definition settle :: "env \<Rightarrow> entry \<Rightarrow> (url \<times> int \<times> pageInfo) settled" where
  "settle E e =
     (case getPageInfo E (url e) of
        fulfilled pageInfo \<Rightarrow> fulfilled (url e, depth e, pageInfo)
      | rejected \<Rightarrow> rejected)"

text \<open>First pass: \<open>nodes.set(url, {id, title: pageInfo.title || url, favicon})\<close>.\<close>

fun first_pass ::
  "(url \<times> int \<times> pageInfo) settled list \<Rightarrow> crawl_state \<Rightarrow> crawl_state" where
  "first_pass [] st = st"
| "first_pass (rejected # results) st = first_pass results st"
| "first_pass (fulfilled (u, d, pageInfo) # results) st =
     first_pass results
       (st\<lparr>nodes := AList.update u
              \<lparr>node_id = u,
               node_title = (if title pageInfo = [] then u else title pageInfo),
               node_favicon = favicon pageInfo\<rparr> (nodes st)\<rparr>)"

text \<open>\<open>Set.prototype.add\<close>: a new element goes to the end, a present one changes nothing.\<close>

definition set_add :: "'a \<Rightarrow> 'a list \<Rightarrow> 'a list" where
  "set_add x xs = (if x \<in> set xs then xs else xs @ [x])"

text \<open>The loop over \<open>pageInfo.links\<close> of one fulfilled result.\<close>

fun link_loop :: "env \<Rightarrow> url \<Rightarrow> int \<Rightarrow> string list \<Rightarrow> crawl_state \<Rightarrow> crawl_state" where
  "link_loop E u d [] st = st"
| "link_loop E u d (linkedUrl # rest) st =
     (case new_URL E linkedUrl of
        None \<Rightarrow> link_loop E u d rest st
      | Some normalizedLinkedUrl \<Rightarrow>
          link_loop E u d rest
            (let st1 = st\<lparr>link_set := set_add (u, normalizedLinkedUrl) (link_set st)\<rparr>
             in if normalizedLinkedUrl \<notin> urlCache st1
                then st1\<lparr>queue := queue st1 @ [\<lparr>url = normalizedLinkedUrl, depth = d + 1\<rparr>]\<rparr>
                else st1))"

text \<open>Second pass: links and new queue elements, then \<open>processedCount++\<close>.\<close>

fun second_pass ::
  "env \<Rightarrow> int \<Rightarrow> (url \<times> int \<times> pageInfo) settled list \<Rightarrow> crawl_state \<Rightarrow> crawl_state" where
  "second_pass E k [] st = st"
| "second_pass E k (rejected # results) st = second_pass E k results st"
| "second_pass E k (fulfilled (u, d, pageInfo) # results) st =
     second_pass E k results
       (let st1 = (if d < k then link_loop E u d (links pageInfo) st else st)
        in st1\<lparr>processedCount := processedCount st1 + 1\<rparr>)"

text \<open>
  One turn of the outer \<open>while\<close> loop: \<open>Continue\<close> when the body ran to its end,
  \<open>Break\<close> when the loop is left (condition false, or \<open>batch.length === 0\<close>),
  \<open>Throw\<close> when an error reaches the \<open>catch\<close> of \<open>crawlKHops\<close>.
\<close>

datatype step_result = Continue crawl_state | Break crawl_state | Throw crawl_state

definition crawl_step :: "env \<Rightarrow> limits \<Rightarrow> url \<Rightarrow> int \<Rightarrow> crawl_state \<Rightarrow> step_result" where
  "crawl_step E L startUrl k st =
     (if queue st \<noteq> [] \<and> processedCount st < TOTAL_NODES L then
        (case fill_batch E (CONCURRENT_FETCHES L) startUrl k (queue st) (urlCache st) [] of
           (batch, q, cache) \<Rightarrow>
             let st1 = st\<lparr>queue := q, urlCache := cache\<rparr> in
             if batch = [] then Break st1
             else
               let results = map (settle E) batch;
                   st2 = st1\<lparr>dispatched := dispatched st1 @ batch\<rparr>
               in if internal_error E (length (dispatched st2)) then Throw st2
                  else Continue (second_pass E k results (first_pass results st2)))
      else Break st)"

section \<open>Auxiliary notions for the proofs\<close>

text \<open>The measure of the queue used for termination.\<close>

definition weight :: "int \<Rightarrow> entry list \<Rightarrow> nat multiset" where
  "weight k q = mset (map (\<lambda>e. nat (k + 1 - depth e)) q)"

text \<open>
  The queue elements that \<open>link_loop\<close> appends for the links of one page, and those
  that \<open>second_pass\<close> appends for a whole list of results.
\<close>

definition pushes :: "env \<Rightarrow> url set \<Rightarrow> int \<Rightarrow> string list \<Rightarrow> entry list" where
  "pushes E cache d ls =
     map (\<lambda>n. \<lparr>url = n, depth = d + 1\<rparr>) (filter (\<lambda>n. n \<notin> cache) (List.map_filter (new_URL E) ls))"

fun discovered :: "env \<Rightarrow> url set \<Rightarrow> int \<Rightarrow> (url \<times> int \<times> pageInfo) settled list \<Rightarrow> entry list" where
  "discovered E cache k [] = []"
| "discovered E cache k (rejected # rs) = discovered E cache k rs"
| "discovered E cache k (fulfilled (u, d, p) # rs) =
     (if d < k then pushes E cache d (links p) else []) @ discovered E cache k rs"

text \<open>
  An element that the inner loop would put into the batch, given the visited set; and
  the relation between the elements the inner loop removes from the queue, the batch it
  builds from them, and the visited set afterwards.
\<close>

definition dispatchable :: "env \<Rightarrow> url \<Rightarrow> int \<Rightarrow> url set \<Rightarrow> entry \<Rightarrow> bool" where
  "dispatchable E startUrl k cache e \<longleftrightarrow>
     depth e \<le> k \<and>
     (case new_URL E (url e) of None \<Rightarrow> False | Some n \<Rightarrow> n = startUrl \<or> n \<notin> cache)"

inductive picks :: "env \<Rightarrow> url \<Rightarrow> int \<Rightarrow> url set \<Rightarrow> entry list \<Rightarrow> entry list \<Rightarrow> url set \<Rightarrow> bool"
  for E :: env and s :: url and k :: int where
  picks_Nil: "picks E s k cache [] [] cache"
| picks_skip: "\<not> dispatchable E s k cache x \<Longrightarrow> picks E s k cache xs ts cache'
     \<Longrightarrow> picks E s k cache (x # xs) ts cache'"
| picks_take: "depth x \<le> k \<Longrightarrow> new_URL E (url x) = Some n \<Longrightarrow> n = s \<or> n \<notin> cache
     \<Longrightarrow> picks E s k (insert n cache) xs ts cache'
     \<Longrightarrow> picks E s k cache (x # xs) (x\<lparr>url := n\<rparr> # ts) cache'"

section \<open>What the passes change\<close>

lemma link_loop_queue:
  "queue (link_loop E u d ls st) = queue st @ pushes E (urlCache st) d ls"
  by (induction ls arbitrary: st) (auto simp: pushes_def Let_def split: option.splits)

lemma link_loop_other [simp]:
  "urlCache (link_loop E u d ls st) = urlCache st"
  "nodes (link_loop E u d ls st) = nodes st"
  "processedCount (link_loop E u d ls st) = processedCount st"
  "dispatched (link_loop E u d ls st) = dispatched st"
  by (induction ls arbitrary: st; auto simp: Let_def split: option.splits)+

lemma second_pass_other [simp]:
  "urlCache (second_pass E k rs st) = urlCache st"
  "nodes (second_pass E k rs st) = nodes st"
  "dispatched (second_pass E k rs st) = dispatched st"
  by (induction E k rs st rule: second_pass.induct; simp add: Let_def)+

lemma second_pass_queue:
  "queue (second_pass E k rs st) = queue st @ discovered E (urlCache st) k rs"
  by (induction E k rs st rule: second_pass.induct) (simp_all add: Let_def link_loop_queue)

lemma first_pass_other [simp]:
  "urlCache (first_pass rs st) = urlCache st"
  "queue (first_pass rs st) = queue st"
  "link_set (first_pass rs st) = link_set st"
  "processedCount (first_pass rs st) = processedCount st"
  "dispatched (first_pass rs st) = dispatched st"
  by (induction rs st rule: first_pass.induct; simp)+


section \<open>The inner loop and one turn of the outer loop\<close>

lemma fill_batch_picks:
  "fill_batch E c s k q cache b = (batch, q', cache') \<Longrightarrow>
   \<exists>consumed taken. q = consumed @ q' \<and> batch = b @ taken \<and>
     picks E s k cache consumed taken cache' \<and>
     (length b \<le> c \<longrightarrow> length batch \<le> c) \<and>
     (q' = [] \<or> c \<le> length batch)"
proof (induction E c s k q cache b rule: fill_batch.induct)
  case (1 E c s k cache b)
  then show ?case by (auto intro: picks_Nil)
next
  case (2 E c s k nxt q cache b)
  show ?case
  proof (cases "length b < c")
    case False
    with "2.prems" show ?thesis by (auto intro: picks_Nil)
  next
    case True
    note lt = this
    consider (deep) "depth nxt > k"
      | (bad) "\<not> depth nxt > k" "new_URL E (url nxt) = None"
      | (take) n where "\<not> depth nxt > k" "new_URL E (url nxt) = Some n" "n = s \<or> n \<notin> cache"
      | (seen) n where "\<not> depth nxt > k" "new_URL E (url nxt) = Some n" "\<not> (n = s \<or> n \<notin> cache)"
      by (cases "new_URL E (url nxt)") auto
    then show ?thesis
    proof cases
      case deep
      with lt "2.prems" have "fill_batch E c s k q cache b = (batch, q', cache')" by simp
      from "2.IH"(1)[OF lt deep this] obtain consumed taken where
        *: "q = consumed @ q'" "batch = b @ taken" "picks E s k cache consumed taken cache'"
        "length b \<le> c \<longrightarrow> length batch \<le> c" "q' = [] \<or> c \<le> length batch" by blast
      have "\<not> dispatchable E s k cache nxt" using deep by (simp add: dispatchable_def)
      with * show ?thesis
        by (intro exI[of _ "nxt # consumed"] exI[of _ taken]) (auto intro: picks_skip)
    next
      case bad
      with lt "2.prems" have "fill_batch E c s k q cache b = (batch, q', cache')" by simp
      from "2.IH"(2)[OF lt bad this] obtain consumed taken where
        *: "q = consumed @ q'" "batch = b @ taken" "picks E s k cache consumed taken cache'"
        "length b \<le> c \<longrightarrow> length batch \<le> c" "q' = [] \<or> c \<le> length batch" by blast
      have "\<not> dispatchable E s k cache nxt" using bad by (simp add: dispatchable_def)
      with * show ?thesis
        by (intro exI[of _ "nxt # consumed"] exI[of _ taken]) (auto intro: picks_skip)
    next
      case take
      with lt "2.prems" have "fill_batch E c s k q (insert n cache) (b @ [nxt\<lparr>url := n\<rparr>]) = (batch, q', cache')"
        by simp
      from "2.IH"(3)[OF lt take this] obtain consumed taken where
        *: "q = consumed @ q'" "batch = (b @ [nxt\<lparr>url := n\<rparr>]) @ taken"
        "picks E s k (insert n cache) consumed taken cache'"
        "length (b @ [nxt\<lparr>url := n\<rparr>]) \<le> c \<longrightarrow> length batch \<le> c" "q' = [] \<or> c \<le> length batch" by blast
      have "picks E s k cache (nxt # consumed) (nxt\<lparr>url := n\<rparr> # taken) cache'"
        using take *(3) by (intro picks_take) auto
      with * lt show ?thesis
        by (intro exI[of _ "nxt # consumed"] exI[of _ "nxt\<lparr>url := n\<rparr> # taken"]) auto
    next
      case seen
      with lt "2.prems" have "fill_batch E c s k q cache b = (batch, q', cache')" by simp
      from "2.IH"(4)[OF lt seen this] obtain consumed taken where
        *: "q = consumed @ q'" "batch = b @ taken" "picks E s k cache consumed taken cache'"
        "length b \<le> c \<longrightarrow> length batch \<le> c" "q' = [] \<or> c \<le> length batch" by blast
      have "\<not> dispatchable E s k cache nxt" using seen by (simp add: dispatchable_def)
      with * show ?thesis
        by (intro exI[of _ "nxt # consumed"] exI[of _ taken]) (auto intro: picks_skip)
    qed
  qed
qed

lemma picks_depth:
  "picks E s k cache consumed taken cache' \<Longrightarrow>
   \<forall>e\<in>set taken. depth e \<le> k \<and> (\<exists>x\<in>set consumed. depth x = depth e \<and> new_URL E (url x) = Some (url e))"
  by (induction rule: picks.induct) auto

lemma picks_cache:
  "picks E s k cache consumed taken cache' \<Longrightarrow> cache' = cache \<union> url ` set taken"
  by (induction rule: picks.induct) auto

lemma picks_empty:
  "picks E s k cache consumed taken cache' \<Longrightarrow>
   taken = [] \<longleftrightarrow> (\<forall>x\<in>set consumed. \<not> dispatchable E s k cache x)"
  by (induction rule: picks.induct) (auto simp: dispatchable_def)

lemma crawl_step_Continue:
  assumes "crawl_step E L s k st = Continue st'"
  obtains consumed batch q' where
    "queue st = consumed @ q'"
    "batch \<noteq> []"
    "queue st \<noteq> []" "processedCount st < TOTAL_NODES L"
    "picks E s k (urlCache st) consumed batch (urlCache st')"
    "length batch \<le> CONCURRENT_FETCHES L"
    "q' = [] \<or> CONCURRENT_FETCHES L \<le> length batch"
    "\<not> internal_error E (length (dispatched st) + length batch)"
    "st' = second_pass E k (map (settle E) batch)
             (first_pass (map (settle E) batch)
                (st\<lparr>queue := q', urlCache := urlCache st \<union> url ` set batch,
                    dispatched := dispatched st @ batch\<rparr>))"
proof -
  from assms have c: "queue st \<noteq> []" "processedCount st < TOTAL_NODES L"
    by (auto simp: crawl_step_def split: if_splits)
  obtain batch q' cache' where
    fb: "fill_batch E (CONCURRENT_FETCHES L) s k (queue st) (urlCache st) [] = (batch, q', cache')"
    by (metis prod_cases3)
  from fill_batch_picks[OF fb] obtain consumed where
    p: "queue st = consumed @ q'" "picks E s k (urlCache st) consumed batch cache'"
      "length batch \<le> CONCURRENT_FETCHES L" "q' = [] \<or> CONCURRENT_FETCHES L \<le> length batch"
    by auto
  from picks_cache[OF p(2)] have ce: "cache' = urlCache st \<union> url ` set batch" .
  from assms c fb have ne: "batch \<noteq> []"
    by (auto simp: crawl_step_def Let_def split: if_splits)
  from assms c fb ne have ie: "\<not> internal_error E (length (dispatched st) + length batch)"
    and st': "st' = second_pass E k (map (settle E) batch)
             (first_pass (map (settle E) batch)
                (st\<lparr>queue := q', urlCache := cache', dispatched := dispatched st @ batch\<rparr>))"
    by (auto simp: crawl_step_def Let_def split: if_splits)
  have "urlCache st' = cache'" by (simp add: st')
  with that[OF p(1) ne c _ p(3,4) ie] p(2) st' ce show thesis by simp
qed

section \<open>Termination of the outer loop\<close>

lemma discovered_depth:
  "e \<in> set (discovered E cache k rs) \<Longrightarrow>
   \<exists>u d p. fulfilled (u, d, p) \<in> set rs \<and> d < k \<and> depth e = d + 1 \<and> url e \<notin> cache
      \<and> (\<exists>l\<in>set (links p). new_URL E l = Some (url e))"
proof (induction E cache k rs rule: discovered.induct)
  case (1 E cache k)
  then show ?case by simp
next
  case (2 E cache k rs)
  then show ?case by auto
next
  case (3 E cache k u d p rs)
  from "3.prems" consider (here) "d < k" "e \<in> set (pushes E cache d (links p))"
    | (later) "e \<in> set (discovered E cache k rs)"
    by (auto split: if_splits)
  then show ?case
  proof cases
    case here
    then obtain n where n: "n \<in> set (List.map_filter (new_URL E) (links p))" "n \<notin> cache"
      "e = \<lparr>url = n, depth = d + 1\<rparr>"
      by (auto simp: pushes_def)
    from n(1) obtain l where "l \<in> set (links p)" "new_URL E l = Some n"
      by (auto simp: map_filter_def)
    with here n show ?thesis by auto
  next
    case later
    from "3.IH"[OF this] show ?thesis by auto
  qed
qed

lemma settle_eq_fulfilled:
  "settle E e = fulfilled (u, d, p) \<longleftrightarrow>
   url e = u \<and> depth e = d \<and> getPageInfo E (url e) = fulfilled p"
  by (cases "getPageInfo E (url e)") (auto simp: settle_def)

lemma settle_eq_rejected:
  "settle E e = rejected \<longleftrightarrow> getPageInfo E (url e) = rejected"
  by (cases "getPageInfo E (url e)") (auto simp: settle_def)

lemma settle_fulfilled:
  "fulfilled (u, d, p) \<in> set (map (settle E) batch) \<longleftrightarrow>
   (\<exists>b\<in>set batch. url b = u \<and> depth b = d \<and> getPageInfo E u = fulfilled p)"
proof -
  have "fulfilled (u, d, p) \<in> set (map (settle E) batch) \<longleftrightarrow>
        (\<exists>b\<in>set batch. fulfilled (u, d, p) = settle E b)"
    by (simp add: image_iff)
  also have "\<dots> \<longleftrightarrow> (\<exists>b\<in>set batch. settle E b = fulfilled (u, d, p))"
    by metis
  finally show ?thesis
    unfolding settle_eq_fulfilled by blast
qed

lemma step_decreases:
  assumes "crawl_step E L s k st = Continue st'"
  shows "(weight k (queue st'), weight k (queue st)) \<in> mult {(a, b). a < b}"
proof -
  from assms obtain consumed batch q' where
    q: "queue st = consumed @ q'" and ne: "batch \<noteq> []"
    and p: "picks E s k (urlCache st) consumed batch (urlCache st')"
    and st': "st' = second_pass E k (map (settle E) batch)
             (first_pass (map (settle E) batch)
                (st\<lparr>queue := q', urlCache := urlCache st \<union> url ` set batch,
                    dispatched := dispatched st @ batch\<rparr>))"
    by (rule crawl_step_Continue)
  define new where "new = discovered E (urlCache st \<union> url ` set batch) k (map (settle E) batch)"
  have q': "queue st' = q' @ new"
    by (simp add: st' second_pass_queue new_def)
  have cne: "consumed \<noteq> []"
    using picks_empty[OF p] ne by auto
  have small: "\<exists>j\<in>#weight k consumed. w < j" if "w \<in># weight k new" for w
  proof -
    from that obtain e where e: "e \<in> set new" "w = nat (k + 1 - depth e)"
      by (auto simp: weight_def)
    from discovered_depth[OF e(1)[unfolded new_def]] obtain u d pg where
      f: "fulfilled (u, d, pg) \<in> set (map (settle E) batch)" "d < k" "depth e = d + 1"
      by blast
    from f(1) obtain b where b: "b \<in> set batch" "depth b = d"
      unfolding settle_fulfilled by blast
    from picks_depth[OF p] b obtain x where x: "x \<in> set consumed" "depth x = d"
      by metis
    have "nat (k + 1 - depth x) \<in># weight k consumed"
      using x(1) by (auto simp: weight_def)
    moreover have "w < nat (k + 1 - depth x)"
      using e(2) f(2,3) x(2) by simp
    ultimately show ?thesis by blast
  qed
  have "(weight k q' + weight k new, weight k q' + weight k consumed) \<in> mult {(a, b). a < b}"
    by (rule one_step_implies_mult) (use cne small in \<open>auto simp: weight_def\<close>)
  then show ?thesis
    by (simp add: q q' weight_def add.commute)
qed

text \<open>
  The outer loop runs \<open>crawl_step\<close> until it leaves: \<open>Returned\<close> with the state from
  which \<open>graphData\<close> is built, or \<open>Caught\<close> when an error reached the \<open>catch\<close>. It
  always leaves: along a turn the multiset of the weights \<open>k + 1 - depth\<close> of the queue
  decreases, since the turn removes at least one element and adds only elements of
  smaller weight.
\<close>

datatype loop_result = Returned crawl_state | Caught crawl_state

function crawl_loop :: "env \<Rightarrow> limits \<Rightarrow> url \<Rightarrow> int \<Rightarrow> crawl_state \<Rightarrow> loop_result" where
  "crawl_loop E L startUrl k st =
     (case crawl_step E L startUrl k st of
        Continue st' \<Rightarrow> crawl_loop E L startUrl k st'
      | Break st' \<Rightarrow> Returned st'
      | Throw st' \<Rightarrow> Caught st')"
  by pat_completeness auto
termination
proof (relation "inv_image (mult {(a::nat, b). a < b}) (\<lambda>(E, L, s, k, st). weight k (queue st))")
  show "wf (inv_image (mult {(a::nat, b). a < b}) (\<lambda>(E, L, s, k, st). weight k (queue st)))"
    by (intro wf_inv_image wf_mult) (simp add: wf_less)
next
  fix E L startUrl k st st'
  assume "crawl_step E L startUrl k st = Continue st'"
  then show "((E, L, startUrl, k, st'), (E, L, startUrl, k, st))
     \<in> inv_image (mult {(a::nat, b). a < b}) (\<lambda>(E, L, s, k, st). weight k (queue st))"
    by (simp add: step_decreases)
qed

declare crawl_loop.simps [simp del]

section \<open>The result of a crawl and the route\<close>

text \<open>The variables of \<open>crawlKHops\<close> before the loop, with the visited set it finds.\<close>

definition initial :: "url \<Rightarrow> url set \<Rightarrow> crawl_state" where
  "initial startUrl cache =
     \<lparr>nodes = [], link_set = [], queue = [\<lparr>url = startUrl, depth = 0\<rparr>],
      processedCount = 0, urlCache = cache, dispatched = []\<rparr>"

definition crawl_run :: "env \<Rightarrow> limits \<Rightarrow> url \<Rightarrow> int \<Rightarrow> url set \<Rightarrow> loop_result" where
  "crawl_run E L startUrl k cache = crawl_loop E L startUrl k (initial startUrl cache)"

fun final_state :: "loop_result \<Rightarrow> crawl_state" where
  "final_state (Returned st) = st"
| "final_state (Caught st) = st"

text \<open>
  \<open>graphData\<close>: the values of \<open>nodes\<close> (the coordinates set to \<open>undefined\<close> carry nothing)
  and the links whose two ends are keys of \<open>nodes\<close>.
\<close>

record graphData =
  gnodes :: "node list"
  glinks :: "(url \<times> url) list"

definition has :: "(url \<times> node) list \<Rightarrow> url \<Rightarrow> bool" where
  "has m u \<longleftrightarrow> map_of m u \<noteq> None"

definition graph_of :: "crawl_state \<Rightarrow> graphData" where
  "graph_of st =
     \<lparr>gnodes = map snd (nodes st),
      glinks = filter (\<lambda>(source, target). has (nodes st) source \<and> has (nodes st) target)
                 (link_set st)\<rparr>"

text \<open>What \<open>crawlKHops\<close> returns: the graph, or the empty graph of its \<open>catch\<close>.\<close>

fun returned_graph :: "loop_result \<Rightarrow> graphData" where
  "returned_graph (Returned st) = graph_of st"
| "returned_graph (Caught st) = \<lparr>gnodes = [], glinks = []\<rparr>"

definition crawlKHops :: "env \<Rightarrow> limits \<Rightarrow> url \<Rightarrow> int \<Rightarrow> url set \<Rightarrow> graphData" where
  "crawlKHops E L startUrl k cache = returned_graph (crawl_run E L startUrl k cache)"

text \<open>
  The route \<open>POST /api/crawl\<close> with body \<open>{url, k = 2, reset = false}\<close>: the response,
  the visited set it leaves behind and the log of the fetches it made.
\<close>

datatype response = Json graphData | Status500

definition api_crawl ::
  "env \<Rightarrow> limits \<Rightarrow> string \<Rightarrow> int option \<Rightarrow> bool \<Rightarrow> url set
   \<Rightarrow> response \<times> url set \<times> entry list" where
  "api_crawl E L u k_opt reset cache0 =
     (let k = (case k_opt of None \<Rightarrow> 2 | Some k \<Rightarrow> k);
          cache1 = (if reset then {} else cache0)
      in case new_URL E u of
           None \<Rightarrow> (Status500, cache1, [])
         | Some normalizedUrl \<Rightarrow>
             let r = crawl_run E L normalizedUrl k (cache1 - {normalizedUrl})
             in (Json (returned_graph r), urlCache (final_state r), dispatched (final_state r)))"

section \<open>The states a crawl goes through\<close>

inductive visited :: "env \<Rightarrow> limits \<Rightarrow> url \<Rightarrow> int \<Rightarrow> crawl_state \<Rightarrow> crawl_state \<Rightarrow> bool"
  for E :: env and L :: limits and s :: url and k :: int and st0 :: crawl_state where
  visited_start: "visited E L s k st0 st0"
| visited_step: "visited E L s k st0 st \<Longrightarrow> crawl_step E L s k st = Continue st'
     \<Longrightarrow> visited E L s k st0 st'"

lemma visited_first:
  "visited E L s k st1 st \<Longrightarrow> crawl_step E L s k st0 = Continue st1 \<Longrightarrow> visited E L s k st0 st"
  by (induction rule: visited.induct) (auto intro: visited.intros)

lemma crawl_loop_last:
  "\<exists>st. visited E L s k st0 st \<and>
     (case crawl_loop E L s k st0 of
        Returned st' \<Rightarrow> crawl_step E L s k st = Break st'
      | Caught st' \<Rightarrow> crawl_step E L s k st = Throw st')"
proof (induction E L s k st0 rule: crawl_loop.induct)
  case (1 E L s k st0)
  show ?case
  proof (cases "crawl_step E L s k st0")
    case (Continue st1)
    from "1.IH"[OF this] obtain st where
      "visited E L s k st1 st"
      "case crawl_loop E L s k st1 of
         Returned st' \<Rightarrow> crawl_step E L s k st = Break st'
       | Caught st' \<Rightarrow> crawl_step E L s k st = Throw st'"
      by blast
    moreover have "crawl_loop E L s k st0 = crawl_loop E L s k st1"
      using Continue by (subst crawl_loop.simps) simp
    ultimately show ?thesis
      using Continue by (metis visited_first)
  next
    case (Break st1)
    then have "crawl_loop E L s k st0 = Returned st1"
      by (subst crawl_loop.simps) simp
    with Break show ?thesis
      by (intro exI[of _ st0]) (simp add: visited_start)
  next
    case (Throw st1)
    then have "crawl_loop E L s k st0 = Caught st1"
      by (subst crawl_loop.simps) simp
    with Throw show ?thesis
      by (intro exI[of _ st0]) (simp add: visited_start)
  qed
qed

text \<open>
  Every way a crawl ends goes through a last turn of the loop, started in a state the
  loop reached.
\<close>

lemma crawl_run_cases:
  obtains (Returned) st st' where
      "visited E L s k (initial s cache) st" "crawl_step E L s k st = Break st'"
      "crawl_run E L s k cache = Returned st'"
  | (Caught) st st' where
      "visited E L s k (initial s cache) st" "crawl_step E L s k st = Throw st'"
      "crawl_run E L s k cache = Caught st'"
proof -
  obtain st where v: "visited E L s k (initial s cache) st"
    and last: "case crawl_loop E L s k (initial s cache) of
        Returned st' \<Rightarrow> crawl_step E L s k st = Break st'
      | Caught st' \<Rightarrow> crawl_step E L s k st = Throw st'"
    using crawl_loop_last by blast
  show thesis
  proof (cases "crawl_loop E L s k (initial s cache)")
    case (Returned st')
    with last v show ?thesis by (intro that(1)[of st st']) (simp_all add: crawl_run_def)
  next
    case (Caught st')
    with last v show ?thesis by (intro that(2)[of st st']) (simp_all add: crawl_run_def)
  qed
qed

section \<open>More on the passes and on one turn of the loop\<close>

definition is_fulfilled :: "'a settled \<Rightarrow> bool" where
  "is_fulfilled r \<longleftrightarrow> r \<noteq> rejected"

lemma is_fulfilled_simps [simp]:
  "is_fulfilled (fulfilled x)" "\<not> is_fulfilled rejected"
  by (simp_all add: is_fulfilled_def)

lemma second_pass_processedCount:
  "processedCount (second_pass E k rs st) = processedCount st + length (filter is_fulfilled rs)"
  by (induction E k rs st rule: second_pass.induct) (simp_all add: Let_def)

lemma length_update_le: "length (AList.update u v al) \<le> Suc (length al)"
  by (induction al) auto

lemma first_pass_nodes_length:
  "length (nodes (first_pass rs st)) \<le> length (nodes st) + length (filter is_fulfilled rs)"
proof (induction rs st rule: first_pass.induct)
  case (1 st)
  show ?case by simp
next
  case (2 results st)
  then show ?case by simp
next
  case (3 u d pageInfo results st)
  define v where "v = \<lparr>node_id = u,
               node_title = (if title pageInfo = [] then u else title pageInfo),
               node_favicon = favicon pageInfo\<rparr>"
  define st2 where "st2 = st\<lparr>nodes := AList.update u v (nodes st)\<rparr>"
  have "length (nodes (first_pass results st2))
          \<le> length (nodes st2) + length (filter is_fulfilled results)"
    using "3.IH" by (simp add: st2_def v_def)
  moreover have "length (nodes st2) \<le> Suc (length (nodes st))"
    by (simp add: st2_def length_update_le del: AList.update.simps)
  moreover have "first_pass (fulfilled (u, d, pageInfo) # results) st = first_pass results st2"
    by (simp add: st2_def v_def)
  ultimately show ?case by simp
qed

lemma crawl_step_Break:
  assumes "crawl_step E L s k st = Break st'"
  shows "nodes st' = nodes st \<and> link_set st' = link_set st \<and> processedCount st' = processedCount st
     \<and> dispatched st' = dispatched st \<and> urlCache st' = urlCache st
     \<and> (\<exists>consumed. queue st = consumed @ queue st')"
proof (cases "queue st \<noteq> [] \<and> processedCount st < TOTAL_NODES L")
  case False
  with assms have "st' = st" by (auto simp: crawl_step_def)
  then show ?thesis by simp
next
  case True
  obtain batch q' cache' where
    fb: "fill_batch E (CONCURRENT_FETCHES L) s k (queue st) (urlCache st) [] = (batch, q', cache')"
    by (metis prod_cases3)
  from fill_batch_picks[OF fb] obtain consumed where
    p: "queue st = consumed @ q'" "picks E s k (urlCache st) consumed batch cache'"
    by auto
  from assms True fb have "batch = []" "st' = st\<lparr>queue := q', urlCache := cache'\<rparr>"
    by (auto simp: crawl_step_def Let_def split: if_splits)
  with p picks_cache[OF p(2)] show ?thesis by auto
qed

lemma crawl_step_Throw:
  assumes "crawl_step E L s k st = Throw st'"
  shows "nodes st' = nodes st \<and> link_set st' = link_set st \<and> processedCount st' = processedCount st
     \<and> (\<exists>consumed batch. queue st = consumed @ queue st' \<and> batch \<noteq> []
          \<and> picks E s k (urlCache st) consumed batch (urlCache st')
          \<and> dispatched st' = dispatched st @ batch
          \<and> internal_error E (length (dispatched st'))
          \<and> length batch \<le> CONCURRENT_FETCHES L)"
proof -
  from assms have c: "queue st \<noteq> []" "processedCount st < TOTAL_NODES L"
    by (auto simp: crawl_step_def split: if_splits)
  obtain batch q' cache' where
    fb: "fill_batch E (CONCURRENT_FETCHES L) s k (queue st) (urlCache st) [] = (batch, q', cache')"
    by (metis prod_cases3)
  from fill_batch_picks[OF fb] obtain consumed where
    p: "queue st = consumed @ q'" "picks E s k (urlCache st) consumed batch cache'"
       "length batch \<le> CONCURRENT_FETCHES L"
    by auto
  from assms c fb have "batch \<noteq> []"
    "st' = st\<lparr>queue := q', urlCache := cache', dispatched := dispatched st @ batch\<rparr>"
    "internal_error E (length (dispatched st) + length batch)"
    by (auto simp: crawl_step_def Let_def split: if_splits)
  with p show ?thesis by auto
qed

lemma visited_invariant:
  assumes "visited E L s k st0 st" "P st0"
    and "\<And>st st'. P st \<Longrightarrow> crawl_step E L s k st = Continue st' \<Longrightarrow> P st'"
  shows "P st"
  using assms by (induction rule: visited.induct) auto

lemma visited_crawl_loop:
  "visited E L s k st0 st \<Longrightarrow> crawl_loop E L s k st0 = crawl_loop E L s k st"
proof (induction rule: visited.induct)
  case visited_start
  show ?case by simp
next
  case (visited_step st st')
  have "crawl_loop E L s k st = crawl_loop E L s k st'"
    using visited_step.hyps(2) by (subst crawl_loop.simps) simp
  with visited_step.IH show ?case by simp
qed


lemma crawl_step_no_Throw:
  assumes "\<forall>n. \<not> internal_error E n"
  shows "crawl_step E L s k st \<noteq> Throw st'"
  using assms by (auto simp: crawl_step_def Let_def split: prod.splits)

text \<open>Two facts on lists without repetition under a function.\<close>

lemma distinct_filter_one:
  "distinct (map f xs) \<Longrightarrow> x \<in> set xs \<Longrightarrow> length (filter (\<lambda>e. f e = f x) xs) = 1"
proof (induction xs)
  case Nil
  then show ?case by simp
next
  case (Cons a xs)
  show ?case
  proof (cases "f a = f x")
    case True
    with Cons.prems have "f x \<notin> f ` set xs" by auto
    then have "\<forall>e\<in>set xs. f e \<noteq> f x" by (metis imageI)
    then have "filter (\<lambda>e. f e = f x) xs = []" by (simp add: filter_empty_conv)
    with True show ?thesis by simp
  next
    case False
    with Cons show ?thesis by auto
  qed
qed

lemma distinct_map_eq:
  "distinct (map f xs) \<Longrightarrow> x \<in> set xs \<Longrightarrow> y \<in> set xs \<Longrightarrow> f x = f y \<Longrightarrow> x = y"
  by (auto simp: distinct_map dest: inj_onD)

section \<open>A small web for concrete runs\<close>

text \<open>
  Five pages: \<open>a\<close> links to \<open>b\<close>, \<open>c\<close>, an address that does not parse, itself and
  \<open>e\<close>; \<open>b\<close> has no title and links to \<open>d\<close> and \<open>c\<close>; the fetch of \<open>c\<close> fails inside
  the \<open>try\<close> block; the browser cannot be launched for \<open>d\<close>; \<open>e\<close> links to \<open>d\<close> as
  well, so \<open>d\<close> is put into the queue twice. Every address but \<open>?\<close> parses and is
  its own normal form.
\<close>

definition page :: "string \<Rightarrow> string list \<Rightarrow> browser_run" where
  "page t ls =
     \<lparr>launch_ok = True, body = Some \<lparr>title = t, links = ls, favicon = None\<rparr>,
      close_ok = True\<rparr>"

definition web :: "url \<Rightarrow> browser_run" where
  "web u =
     (if u = ''a'' then page ''A'' [''b'', ''c'', ''?'', ''a'', ''e'']
      else if u = ''b'' then page [] [''d'', ''c'']
      else if u = ''c'' then \<lparr>launch_ok = True, body = None, close_ok = True\<rparr>
      else if u = ''d'' then \<lparr>launch_ok = False, body = None, close_ok = True\<rparr>
      else if u = ''e'' then page ''E'' [''d'']
      else page ''x'' [])"

definition E0 :: env where
  "E0 = \<lparr>new_URL = (\<lambda>s. if s = ''?'' then None else Some s), puppeteer = web,
     internal_error = (\<lambda>n. False)\<rparr>"

lemmas run_simps = LIMITS_def E0_def web_def page_def crawl_run_def initial_def
  crawl_loop.simps crawl_step_def settle_def getPageInfo_def set_add_def Let_def
  crawlKHops_def graph_of_def has_def api_crawl_def

text \<open>The crawl of this web from \<open>a\<close> with \<open>k = 2\<close> and nothing visited before.\<close>

lemma sample_run:
  "crawl_run E0 LIMITS ''a'' 2 {} =
     Returned
      \<lparr>nodes =
         [(''a'', \<lparr>node_id = ''a'', node_title = ''A'', node_favicon = None\<rparr>),
          (''b'', \<lparr>node_id = ''b'', node_title = ''b'', node_favicon = None\<rparr>),
          (''c'', \<lparr>node_id = ''c'', node_title = ''c'', node_favicon = None\<rparr>),
          (''e'', \<lparr>node_id = ''e'', node_title = ''E'', node_favicon = None\<rparr>)],
       link_set =
         [(''a'', ''b''), (''a'', ''c''), (''a'', ''a''), (''a'', ''e''),
          (''b'', ''d''), (''b'', ''c''), (''e'', ''d'')],
       queue = [], processedCount = 4,
       urlCache = {''d'', ''e'', ''c'', ''b'', ''a''},
       dispatched =
         [\<lparr>url = ''a'', depth = 0\<rparr>, \<lparr>url = ''b'', depth = 1\<rparr>,
          \<lparr>url = ''c'', depth = 1\<rparr>, \<lparr>url = ''e'', depth = 1\<rparr>,
          \<lparr>url = ''d'', depth = 2\<rparr>]\<rparr>"
  by (simp add: run_simps)

lemmas sample_simps = sample_run crawlKHops_def graph_of_def has_def initial_def

text \<open>The first turn of that crawl fetches \<open>a\<close> and leads to this state.\<close>

definition after_first_turn :: crawl_state where
  "after_first_turn =
     \<lparr>nodes = [(''a'', \<lparr>node_id = ''a'', node_title = ''A'', node_favicon = None\<rparr>)],
      link_set = [(''a'', ''b''), (''a'', ''c''), (''a'', ''a''), (''a'', ''e'')],
      queue = [\<lparr>url = ''b'', depth = 1\<rparr>, \<lparr>url = ''c'', depth = 1\<rparr>,
               \<lparr>url = ''e'', depth = 1\<rparr>],
      processedCount = 1, urlCache = {''a''},
      dispatched = [\<lparr>url = ''a'', depth = 0\<rparr>]\<rparr>"

lemma sample_first_turn:
  "crawl_step E0 LIMITS ''a'' 2 (initial ''a'' {}) = Continue after_first_turn"
  by (simp add: run_simps after_first_turn_def)

section \<open>The bound on the processed results\<close>

definition within_budget :: "limits \<Rightarrow> crawl_state \<Rightarrow> bool" where
  "within_budget L st \<longleftrightarrow>
     processedCount st + 1 \<le> TOTAL_NODES L + CONCURRENT_FETCHES L \<and>
     length (nodes st) \<le> processedCount st"

lemma within_budget_step:
  assumes "within_budget L st" "crawl_step E L s k st = Continue st'"
  shows "within_budget L st'"
proof -
  from assms(2) obtain consumed batch q' where
    lt: "processedCount st < TOTAL_NODES L"
    and len: "length batch \<le> CONCURRENT_FETCHES L"
    and st': "st' = second_pass E k (map (settle E) batch)
             (first_pass (map (settle E) batch)
                (st\<lparr>queue := q', urlCache := urlCache st \<union> url ` set batch,
                    dispatched := dispatched st @ batch\<rparr>))"
    by (rule crawl_step_Continue)
  define n where "n = length (filter is_fulfilled (map (settle E) batch))"
  have n: "n \<le> length batch"
    unfolding n_def by (metis length_filter_le length_map)
  have pc: "processedCount st' = processedCount st + n"
    by (simp add: st' second_pass_processedCount n_def)
  have "length (nodes st') \<le> length (nodes st) + n"
    using first_pass_nodes_length[of "map (settle E) batch"
        "st\<lparr>queue := q', urlCache := urlCache st \<union> url ` set batch,
                    dispatched := dispatched st @ batch\<rparr>"]
    by (simp add: st' n_def)
  with assms(1) pc n len lt show ?thesis
    by (simp add: within_budget_def)
qed

lemma within_budget_visited:
  assumes "0 < CONCURRENT_FETCHES L" and "visited E L s k (initial s0 cache) st"
  shows "within_budget L st"
  using assms(2)
proof (rule visited_invariant)
  show "within_budget L (initial s0 cache)"
    using assms(1) by (simp add: within_budget_def initial_def)
qed (rule within_budget_step)

lemma within_budget_final:
  assumes "0 < CONCURRENT_FETCHES L"
  shows "within_budget L (final_state (crawl_run E L s k cache))"
proof (cases rule: crawl_run_cases[of E L s k cache])
  case (Returned st st')
  from crawl_step_Break[OF Returned(2)] within_budget_visited[OF assms Returned(1)] Returned(3)
  show ?thesis by (simp add: within_budget_def)
next
  case (Caught st st')
  from crawl_step_Throw[OF Caught(2)] within_budget_visited[OF assms Caught(1)] Caught(3)
  show ?thesis by (simp add: within_budget_def)
qed

section \<open>The returned graph has no dangling link\<close>

text \<open>Every value of \<open>nodes\<close> carries its key as \<open>id\<close>.\<close>

definition keyed :: "(url \<times> node) list \<Rightarrow> bool" where
  "keyed m \<longleftrightarrow> (\<forall>(u, n)\<in>set m. node_id n = u)"

lemma set_update_subset: "set (AList.update u v al) \<subseteq> insert (u, v) (set al)"
  by (induction al) auto

lemma keyed_update: "keyed m \<Longrightarrow> node_id v = u \<Longrightarrow> keyed (AList.update u v m)"
  using set_update_subset[of u v m] by (auto simp: keyed_def)

lemma first_pass_keyed: "keyed (nodes st) \<Longrightarrow> keyed (nodes (first_pass rs st))"
  by (induction rs st rule: first_pass.induct) (simp_all add: keyed_update del: AList.update.simps)

lemma keyed_step:
  assumes "keyed (nodes st)" "crawl_step E L s k st = Continue st'"
  shows "keyed (nodes st')"
proof -
  from assms(2) obtain batch q' where
    st': "st' = second_pass E k (map (settle E) batch)
             (first_pass (map (settle E) batch)
                (st\<lparr>queue := q', urlCache := urlCache st \<union> url ` set batch,
                    dispatched := dispatched st @ batch\<rparr>))"
    by (rule crawl_step_Continue)
  show ?thesis
    unfolding st' using assms(1) by (simp add: first_pass_keyed)
qed

lemma keyed_visited:
  assumes "visited E L s k (initial s0 cache) st"
  shows "keyed (nodes st)"
  using assms
proof (rule visited_invariant)
  show "keyed (nodes (initial s0 cache))" by (simp add: keyed_def initial_def)
qed (rule keyed_step)

lemma keyed_has: "keyed m \<Longrightarrow> has m u \<Longrightarrow> u \<in> node_id ` set (map snd m)"
proof -
  assume k: "keyed m" and h: "has m u"
  from h obtain n where "map_of m u = Some n" by (auto simp: has_def)
  then have "(u, n) \<in> set m" by (rule map_of_SomeD)
  with k have "node_id n = u" "n \<in> set (map snd m)" by (force simp: keyed_def)+
  then show ?thesis by blast
qed

lemma graph_of_closed:
  assumes "keyed (nodes st)" "(a, b) \<in> set (glinks (graph_of st))"
  shows "a \<in> node_id ` set (gnodes (graph_of st)) \<and> b \<in> node_id ` set (gnodes (graph_of st))"
  using assms keyed_has[of "nodes st"] by (auto simp: graph_of_def)

text \<open>
  Claim C5. In the graph that \<open>crawlKHops\<close> returns, the source and the target of
  every link are the \<open>id\<close> of a returned node: links with an end that is no key of
  \<open>nodes\<close> are filtered out, and the graph of the \<open>catch\<close> has no link at all.
\<close>

theorem no_dangling_edges:
  "\<forall>(source, target)\<in>set (glinks (crawlKHops E L startUrl k cache)).
     source \<in> node_id ` set (gnodes (crawlKHops E L startUrl k cache)) \<and>
     target \<in> node_id ` set (gnodes (crawlKHops E L startUrl k cache))"
proof -
  let ?st0 = "initial startUrl cache"
  obtain st where v: "visited E L startUrl k ?st0 st"
    and last: "case crawl_loop E L startUrl k ?st0 of
        Returned st' \<Rightarrow> crawl_step E L startUrl k st = Break st'
      | Caught st' \<Rightarrow> crawl_step E L startUrl k st = Throw st'"
    using crawl_loop_last by blast
  show ?thesis
  proof (cases "crawl_loop E L startUrl k ?st0")
    case (Returned st')
    with last have "crawl_step E L startUrl k st = Break st'" by simp
    from crawl_step_Break[OF this] keyed_visited[OF v] have "keyed (nodes st')" by simp
    then show ?thesis
      using graph_of_closed[of st'] Returned by (auto simp: crawlKHops_def crawl_run_def)
  next
    case (Caught st')
    then show ?thesis by (simp add: crawlKHops_def crawl_run_def)
  qed
qed

text \<open>
  On the small web the links from \<open>b\<close> and from \<open>e\<close> to \<open>d\<close> are dropped (\<open>d\<close> was
  fetched, but its promise was rejected, so it is no node).
\<close>

theorem no_dangling_edges_witness:
  "glinks (crawlKHops E0 LIMITS ''a'' 2 {})
     = [(''a'', ''b''), (''a'', ''c''), (''a'', ''a''), (''a'', ''e''), (''b'', ''c'')]
   \<and> node_id ` set (gnodes (crawlKHops E0 LIMITS ''a'' 2 {})) = {''a'', ''b'', ''c'', ''e''}"
  using no_dangling_edges [of E0 LIMITS "''a''" 2 "{}"]
  by (simp add: sample_simps)

section \<open>Dispatch in breadth-first order\<close>

lemma picks_sorted:
  "picks E s k cache consumed taken cache' \<Longrightarrow> sorted (map depth consumed) \<Longrightarrow>
   sorted (map depth taken) \<and> depth ` set taken \<subseteq> depth ` set consumed"
proof (induction rule: picks.induct)
  case (picks_Nil cache)
  show ?case by simp
next
  case (picks_skip cache x xs ts cache')
  then show ?case by auto
next
  case (picks_take x n cache xs ts cache')
  then have "sorted (map depth ts)" "depth ` set ts \<subseteq> depth ` set xs"
    "\<forall>y\<in>set xs. depth x \<le> depth y"
    by auto
  then show ?case by auto
qed

lemma discovered_from_batch:
  assumes "e \<in> set (discovered E cache k (map (settle E) batch))"
  shows "\<exists>b\<in>set batch. depth e = depth b + 1 \<and> depth b < k"
proof -
  from discovered_depth[OF assms] obtain u d p where
    "fulfilled (u, d, p) \<in> set (map (settle E) batch)" "d < k" "depth e = d + 1"
    by blast
  then show ?thesis
    unfolding settle_fulfilled by blast
qed

lemma discovered_Cons:
  "set (discovered E cache k (map (settle E) (b # batch)))
     \<subseteq> {e. depth e = depth b + 1} \<union> set (discovered E cache k (map (settle E) batch))"
  by (cases "settle E b") (auto simp: settle_eq_fulfilled pushes_def split: if_splits)

lemma discovered_sorted:
  "sorted (map depth batch) \<Longrightarrow> sorted (map depth (discovered E cache k (map (settle E) batch)))"
proof (induction batch)
  case Nil
  show ?case by simp
next
  case (Cons b batch)
  let ?rest = "discovered E cache k (map (settle E) batch)"
  from Cons have rest: "sorted (map depth ?rest)" and le: "\<forall>x\<in>set batch. depth b \<le> depth x"
    by auto
  have later: "depth b + 1 \<le> depth e" if "e \<in> set ?rest" for e
    using discovered_from_batch[OF that] le by auto
  show ?case
  proof (cases "settle E b")
    case rejected
    with rest show ?thesis by simp
  next
    case (fulfilled v)
    then obtain p where v: "v = (url b, depth b, p)"
      by (cases v) (auto simp: settle_eq_fulfilled)
    have "sorted (map depth (pushes E cache (depth b) (links p)))"
      by (simp add: pushes_def comp_def sorted_map sorted_wrt_iff_nth_less)
    with fulfilled v rest later show ?thesis
      by (auto simp: sorted_append pushes_def)
  qed
qed

definition level_order :: "crawl_state \<Rightarrow> bool" where
  "level_order st \<longleftrightarrow>
     sorted (map depth (dispatched st @ queue st)) \<and>
     (\<forall>x\<in>set (queue st). \<forall>y\<in>set (queue st). depth y \<le> depth x + 1)"

lemma level_order_step:
  assumes inv: "level_order st" and step: "crawl_step E L s k st = Continue st'"
  shows "level_order st'"
proof -
  from step obtain consumed batch q' where
    q: "queue st = consumed @ q'"
    and p: "picks E s k (urlCache st) consumed batch (urlCache st')"
    and st': "st' = second_pass E k (map (settle E) batch)
             (first_pass (map (settle E) batch)
                (st\<lparr>queue := q', urlCache := urlCache st \<union> url ` set batch,
                    dispatched := dispatched st @ batch\<rparr>))"
    by (rule crawl_step_Continue)
  define new where "new = discovered E (urlCache st \<union> url ` set batch) k (map (settle E) batch)"
  have q': "queue st' = q' @ new" and d': "dispatched st' = dispatched st @ batch"
    by (simp_all add: st' second_pass_queue new_def)
  from inv q have
    sd: "sorted (map depth (dispatched st))" and sc: "sorted (map depth consumed)"
    and sq: "sorted (map depth q')"
    and dc: "\<forall>x\<in>set (dispatched st). \<forall>y\<in>set consumed. depth x \<le> depth y"
    and dq: "\<forall>x\<in>set (dispatched st). \<forall>y\<in>set q'. depth x \<le> depth y"
    and cq: "\<forall>x\<in>set consumed. \<forall>y\<in>set q'. depth x \<le> depth y"
    and spread: "\<forall>x\<in>set consumed \<union> set q'. \<forall>y\<in>set consumed \<union> set q'. depth y \<le> depth x + 1"
    by (auto simp: level_order_def sorted_append)
  from picks_sorted[OF p sc] have sb: "sorted (map depth batch)"
    and bc: "\<forall>b\<in>set batch. \<exists>c\<in>set consumed. depth c = depth b"
    by (auto simp: image_iff subset_iff) metis
  have sn: "sorted (map depth new)"
    unfolding new_def by (rule discovered_sorted[OF sb])
  have nb: "\<forall>e\<in>set new. \<exists>c\<in>set consumed. depth e = depth c + 1"
    using discovered_from_batch[of _ E _ k batch] bc unfolding new_def by metis
  have new_lo: "depth c \<le> depth e" if "e \<in> set new" "c \<in> set (dispatched st)" for e c
  proof -
    from nb that(1) obtain c' where "c' \<in> set consumed" "depth e = depth c' + 1" by blast
    with dc that(2) show ?thesis by fastforce
  qed
  have new_queue: "depth c \<le> depth e \<and> depth e \<le> depth c + 2"
    if "e \<in> set new" "c \<in> set consumed \<union> set q'" for e c
  proof -
    from nb that(1) obtain c' where c': "c' \<in> set consumed" "depth e = depth c' + 1" by blast
    then have "c' \<in> set consumed \<union> set q'" by simp
    with spread that(2) have "depth c \<le> depth c' + 1" "depth c' \<le> depth c + 1" by blast+
    with c' show ?thesis by simp
  qed
  have new_after: "depth e \<le> depth c + 1" if "e \<in> set new" "c \<in> set q'" for e c
  proof -
    from nb that(1) obtain c' where c': "c' \<in> set consumed" "depth e = depth c' + 1" by blast
    with cq that(2) have "depth c' \<le> depth c" by blast
    with c' show ?thesis by simp
  qed
  have new_new: "depth e \<le> depth e' + 1" if "e \<in> set new" "e' \<in> set new" for e e'
  proof -
    from nb that obtain c c' where c: "c \<in> set consumed" "depth e = depth c + 1"
      "c' \<in> set consumed" "depth e' = depth c' + 1" by blast
    with spread have "depth c \<le> depth c' + 1" by blast
    with c show ?thesis by simp
  qed
  have batch_in: "\<exists>c\<in>set consumed. depth c = depth b" if "b \<in> set batch" for b
    using bc that by blast
  have "sorted (map depth (dispatched st @ batch @ q' @ new))"
    unfolding map_append sorted_append set_map set_append
  proof (intro conjI ballI)
    show "sorted (map depth (dispatched st))" "sorted (map depth batch)"
      "sorted (map depth q')" "sorted (map depth new)"
      by (fact sd sb sq sn)+
  next
    fix x y assume "x \<in> depth ` set q'" "y \<in> depth ` set new"
    then obtain c e where "c \<in> set q'" "x = depth c" "e \<in> set new" "y = depth e" by blast
    with new_queue[of e c] show "x \<le> y" by simp
  next
    fix x y assume "x \<in> depth ` set batch" "y \<in> depth ` set q' \<union> depth ` set new"
    then obtain b where b: "b \<in> set batch" "x = depth b"
      and y: "(\<exists>c\<in>set q'. y = depth c) \<or> (\<exists>e\<in>set new. y = depth e)" by blast
    from batch_in[OF b(1)] obtain c where c: "c \<in> set consumed" "depth c = depth b" by blast
    from y show "x \<le> y"
    proof
      assume "\<exists>c\<in>set q'. y = depth c"
      with cq c b show ?thesis by fastforce
    next
      assume "\<exists>e\<in>set new. y = depth e"
      then obtain e where "e \<in> set new" "y = depth e" by blast
      with new_queue[of e c] c b show ?thesis by simp
    qed
  next
    fix x y assume "x \<in> depth ` set (dispatched st)"
      "y \<in> depth ` set batch \<union> (depth ` set q' \<union> depth ` set new)"
    then obtain d where d: "d \<in> set (dispatched st)" "x = depth d"
      and y: "(\<exists>b\<in>set batch. y = depth b) \<or> (\<exists>c\<in>set q'. y = depth c)
              \<or> (\<exists>e\<in>set new. y = depth e)" by blast
    from y show "x \<le> y"
    proof (elim disjE)
      assume "\<exists>b\<in>set batch. y = depth b"
      then obtain b where "b \<in> set batch" "y = depth b" by blast
      with batch_in[of b] dc d show ?thesis by fastforce
    next
      assume "\<exists>c\<in>set q'. y = depth c"
      with dq d show ?thesis by fastforce
    next
      assume "\<exists>e\<in>set new. y = depth e"
      with new_lo d show ?thesis by fastforce
    qed
  qed
  moreover have "\<forall>x\<in>set (q' @ new). \<forall>y\<in>set (q' @ new). depth y \<le> depth x + 1"
  proof (intro ballI)
    fix x y assume "x \<in> set (q' @ new)" "y \<in> set (q' @ new)"
    then consider "x \<in> set q'" "y \<in> set q'" | "x \<in> set q'" "y \<in> set new"
      | "x \<in> set new" "y \<in> set q'" | "x \<in> set new" "y \<in> set new" by auto
    then show "depth y \<le> depth x + 1"
    proof cases
      case 1 with spread show ?thesis by blast
    next
      case 2 with new_after show ?thesis by blast
    next
      case 3 with new_queue[of x y] show ?thesis by simp
    next
      case 4 with new_new show ?thesis by blast
    qed
  qed
  ultimately show ?thesis
    by (simp add: level_order_def q' d')
qed

lemma level_order_visited:
  assumes "visited E L s k (initial s0 cache) st"
  shows "level_order st"
  using assms
proof (rule visited_invariant)
  show "level_order (initial s0 cache)" by (simp add: level_order_def initial_def)
qed (rule level_order_step)

text \<open>What the queue holds: the start element, or elements no deeper than \<open>k\<close>.\<close>

definition queue_bounded :: "url \<Rightarrow> int \<Rightarrow> crawl_state \<Rightarrow> bool" where
  "queue_bounded startUrl k st \<longleftrightarrow>
     (\<forall>e\<in>set (queue st). depth e \<le> k \<or> e = \<lparr>url = startUrl, depth = 0\<rparr>)"

lemma queue_bounded_step:
  assumes inv: "queue_bounded s0 k st" and step: "crawl_step E L s k st = Continue st'"
  shows "queue_bounded s0 k st'"
proof -
  from step obtain consumed batch q' where
    q: "queue st = consumed @ q'"
    and st': "st' = second_pass E k (map (settle E) batch)
             (first_pass (map (settle E) batch)
                (st\<lparr>queue := q', urlCache := urlCache st \<union> url ` set batch,
                    dispatched := dispatched st @ batch\<rparr>))"
    by (rule crawl_step_Continue)
  define new where "new = discovered E (urlCache st \<union> url ` set batch) k (map (settle E) batch)"
  have q': "queue st' = q' @ new"
    by (simp add: st' second_pass_queue new_def)
  have "depth e \<le> k" if "e \<in> set new" for e
    using discovered_from_batch[of e E _ k batch] that unfolding new_def by fastforce
  with inv q show ?thesis
    by (auto simp: queue_bounded_def q')
qed

lemma queue_bounded_visited:
  assumes "visited E L s k (initial s0 cache) st"
  shows "queue_bounded s0 k st"
  using assms
proof (rule visited_invariant)
  show "queue_bounded s0 k (initial s0 cache)" by (simp add: queue_bounded_def initial_def)
qed (rule queue_bounded_step)

text \<open>What a turn adds to the queue is no deeper than \<open>k\<close>.\<close>

lemma pushed_bounded:
  assumes "crawl_step E L s k st = Continue st'"
  shows "\<exists>consumed rest new. queue st = consumed @ rest \<and> queue st' = rest @ new
     \<and> (\<forall>e\<in>set new. depth e \<le> k)"
proof -
  from assms obtain consumed batch q' where
    q: "queue st = consumed @ q'"
    and st': "st' = second_pass E k (map (settle E) batch)
             (first_pass (map (settle E) batch)
                (st\<lparr>queue := q', urlCache := urlCache st \<union> url ` set batch,
                    dispatched := dispatched st @ batch\<rparr>))"
    by (rule crawl_step_Continue)
  define new where "new = discovered E (urlCache st \<union> url ` set batch) k (map (settle E) batch)"
  have q': "queue st' = q' @ new"
    by (simp add: st' second_pass_queue new_def)
  have "depth e \<le> k" if "e \<in> set new" for e
    using discovered_from_batch[of e E _ k batch] that unfolding new_def by fastforce
  with q q' show ?thesis by blast
qed

text \<open>
  Claim C6, as the code has it, for an integer \<open>k\<close>. The fetches of a crawl are started
  in breadth-first order: along the log of dispatched elements the depth never
  decreases, so no element of depth \<open>d\<close> is dispatched after one of depth \<open>d + 1\<close>. No
  turn of the loop puts an element deeper than \<open>k\<close> into the queue: what it appends to
  the rest of the queue has depth at most \<open>k\<close>. The start element is in the queue at
  depth 0 before the loop, whatever \<open>k\<close> is: in every state the loop reaches, a queue
  element is the start element or has depth at most \<open>k\<close>, and when \<open>k\<close> is not negative
  every queue element has depth at most \<open>k\<close>.
\<close>

theorem breadth_first_dispatch:
  "sorted (map depth (dispatched (final_state (crawl_run E L startUrl k cache))))
   \<and> (\<forall>st st'. crawl_step E L startUrl k st = Continue st' \<longrightarrow>
         (\<exists>consumed rest new. queue st = consumed @ rest \<and> queue st' = rest @ new
            \<and> (\<forall>e\<in>set new. depth e \<le> k)))
   \<and> (\<forall>st. visited E L startUrl k (initial startUrl cache) st \<longrightarrow>
         (\<forall>e\<in>set (queue st). depth e \<le> k \<or> e = \<lparr>url = startUrl, depth = 0\<rparr>))
   \<and> (0 \<le> k \<longrightarrow>
        (\<forall>st. visited E L startUrl k (initial startUrl cache) st \<longrightarrow>
           (\<forall>e\<in>set (queue st). depth e \<le> k)))"
proof (intro conjI)
  show "sorted (map depth (dispatched (final_state (crawl_run E L startUrl k cache))))"
  proof (cases rule: crawl_run_cases[of E L startUrl k cache])
    case (Returned st st')
    from level_order_visited[OF Returned(1)] crawl_step_Break[OF Returned(2)] Returned(3)
    show ?thesis by (simp add: level_order_def sorted_append)
  next
    case (Caught st st')
    from crawl_step_Throw[OF Caught(2)] obtain consumed batch where
      q: "queue st = consumed @ queue st'"
      and p: "picks E startUrl k (urlCache st) consumed batch (urlCache st')"
      and d: "dispatched st' = dispatched st @ batch"
      by blast
    from level_order_visited[OF Caught(1)] q have
      sd: "sorted (map depth (dispatched st))" and sc: "sorted (map depth consumed)"
      and dc: "\<forall>x\<in>set (dispatched st). \<forall>y\<in>set consumed. depth x \<le> depth y"
      by (auto simp: level_order_def sorted_append)
    from picks_sorted[OF p sc] have sb: "sorted (map depth batch)"
      and bc: "depth ` set batch \<subseteq> depth ` set consumed"
      by auto
    have "depth x \<le> depth b" if "x \<in> set (dispatched st)" "b \<in> set batch" for x b
    proof -
      from bc that(2) obtain c where "c \<in> set consumed" "depth c = depth b"
        by (metis (no_types) image_iff subsetD)
      with dc that(1) show ?thesis by fastforce
    qed
    with sd sb show ?thesis
      by (auto simp: Caught(3) d sorted_append)
  qed
next
  show "\<forall>st st'. crawl_step E L startUrl k st = Continue st' \<longrightarrow>
         (\<exists>consumed rest new. queue st = consumed @ rest \<and> queue st' = rest @ new
            \<and> (\<forall>e\<in>set new. depth e \<le> k))"
    using pushed_bounded by blast
next
  show "\<forall>st. visited E L startUrl k (initial startUrl cache) st \<longrightarrow>
         (\<forall>e\<in>set (queue st). depth e \<le> k \<or> e = \<lparr>url = startUrl, depth = 0\<rparr>)"
    using queue_bounded_visited[of E L startUrl k startUrl cache]
    by (simp add: queue_bounded_def)
next
  show "0 \<le> k \<longrightarrow>
        (\<forall>st. visited E L startUrl k (initial startUrl cache) st \<longrightarrow>
           (\<forall>e\<in>set (queue st). depth e \<le> k))"
  proof (intro impI allI ballI)
    fix st e
    assume k: "0 \<le> k" and v: "visited E L startUrl k (initial startUrl cache) st"
      and e: "e \<in> set (queue st)"
    from queue_bounded_visited[OF v] e
    have "depth e \<le> k \<or> e = \<lparr>url = startUrl, depth = 0\<rparr>"
      by (simp add: queue_bounded_def)
    with k show "depth e \<le> k" by auto
  qed
qed

theorem breadth_first_dispatch_witness:
  "map depth (dispatched (final_state (crawl_run E0 LIMITS ''a'' 2 {}))) = [0, 1, 1, 1, 2]
   \<and> sorted (map depth (dispatched (final_state (crawl_run E0 LIMITS ''a'' 2 {}))))
   \<and> (0::int) \<le> 2
   \<and> crawl_step E0 LIMITS ''a'' 2 (initial ''a'' {}) = Continue after_first_turn
   \<and> visited E0 LIMITS ''a'' 2 (initial ''a'' {}) after_first_turn
   \<and> map depth (queue after_first_turn) = [1, 1, 1]"
proof -
  have v: "visited E0 LIMITS ''a'' 2 (initial ''a'' {}) after_first_turn"
    by (rule visited_step[OF visited_start sample_first_turn])
  from breadth_first_dispatch [of E0 LIMITS "''a''" 2 "{}"] v sample_first_turn
  show ?thesis
    by (simp add: sample_simps after_first_turn_def)
qed

text \<open>
  Claim C6 as stated fails for a negative \<open>k\<close>: the queue then starts with the start
  element at depth 0, deeper than \<open>k\<close>; the inner loop drops it when it takes it from
  the queue, and nothing is dispatched.
\<close>

theorem start_element_deeper_than_negative_k:
  "visited E0 LIMITS ''a'' (- 1) (initial ''a'' {}) (initial ''a'' {})
   \<and> queue (initial ''a'' {}) = [\<lparr>url = ''a'', depth = 0\<rparr>]
   \<and> (- 1 :: int) < depth \<lparr>url = ''a'', depth = 0\<rparr>
   \<and> dispatched (final_state (crawl_run E0 LIMITS ''a'' (- 1) {})) = []"
  using visited_start [of E0 LIMITS "''a''" "- 1" "initial ''a'' {}"]
  by (simp add: run_simps)

section \<open>No address is fetched twice\<close>

text \<open>
  Serialising a parsed address and parsing it again gives the same address: a property
  of the URL class, on which the start-address test of the inner loop relies.
\<close>

definition idempotent :: "env \<Rightarrow> bool" where
  "idempotent E \<longleftrightarrow> (\<forall>u v. new_URL E u = Some v \<longrightarrow> new_URL E v = Some v)"

lemma picks_fresh:
  "picks E s k cache consumed taken cache' \<Longrightarrow>
   \<forall>x\<in>set consumed. new_URL E (url x) \<noteq> Some s \<Longrightarrow>
   distinct (map url taken) \<and> url ` set taken \<inter> cache = {}"
proof (induction rule: picks.induct)
  case (picks_Nil cache)
  show ?case by simp
next
  case (picks_skip cache x xs ts cache')
  then show ?case by simp
next
  case (picks_take x n cache xs ts cache')
  then have "n \<noteq> s" by auto
  with picks_take have "n \<notin> cache" "distinct (map url ts)"
    "url ` set ts \<inter> insert n cache = {}"
    by auto
  then show ?case by auto
qed

lemma picks_prefix_single:
  assumes "picks E s k cache consumed taken cache'" "[x] = consumed @ q'" "taken \<noteq> []"
  shows "\<exists>n. taken = [x\<lparr>url := n\<rparr>] \<and> new_URL E (url x) = Some n"
proof -
  from assms(1,3) have "consumed \<noteq> []" by (auto elim: picks.cases)
  with assms(2) have c: "consumed = [x]" by (cases consumed) auto
  from assms(1)[unfolded c] assms(3) show ?thesis
    by (auto elim!: picks.cases)
qed

text \<open>
  After the first turn: the log has no repetition and lies within the visited set; the
  queue holds normal forms other than the start address; and the start address is
  visited, unless no address has it as normal form.
\<close>

definition once :: "env \<Rightarrow> url \<Rightarrow> crawl_state \<Rightarrow> bool" where
  "once E s st \<longleftrightarrow>
     distinct (map url (dispatched st)) \<and>
     url ` set (dispatched st) \<subseteq> urlCache st \<and>
     (\<forall>e\<in>set (queue st). new_URL E (url e) = Some (url e) \<and> url e \<noteq> s) \<and>
     (s \<in> urlCache st \<or> (\<forall>u. new_URL E u \<noteq> Some s))"

lemma once_dispatch:
  assumes inv: "once E s st" and q: "queue st = consumed @ q'"
    and p: "picks E s k (urlCache st) consumed batch cache'"
  shows "distinct (map url (dispatched st @ batch))"
    and "url ` set (dispatched st @ batch) \<subseteq> cache'"
proof -
  from inv q have "\<forall>x\<in>set consumed. new_URL E (url x) \<noteq> Some s"
    by (auto simp: once_def)
  from picks_fresh[OF p this] have "distinct (map url batch)"
    "url ` set batch \<inter> urlCache st = {}" by auto
  with inv show "distinct (map url (dispatched st @ batch))"
    by (auto simp: once_def)
  from picks_cache[OF p] inv show "url ` set (dispatched st @ batch) \<subseteq> cache'"
    by (auto simp: once_def)
qed

lemma discovered_normal:
  assumes "idempotent E" "e \<in> set (discovered E cache k rs)"
  shows "new_URL E (url e) = Some (url e) \<and> url e \<notin> cache"
proof -
  from discovered_depth[OF assms(2)] obtain l where
    "new_URL E l = Some (url e)" "url e \<notin> cache" by blast
  with assms(1) show ?thesis by (auto simp: idempotent_def)
qed

lemma once_step:
  assumes idem: "idempotent E" and inv: "once E s st"
    and step: "crawl_step E L s k st = Continue st'"
  shows "once E s st'"
proof -
  from step obtain consumed batch q' where
    q: "queue st = consumed @ q'"
    and p: "picks E s k (urlCache st) consumed batch (urlCache st')"
    and st': "st' = second_pass E k (map (settle E) batch)
             (first_pass (map (settle E) batch)
                (st\<lparr>queue := q', urlCache := urlCache st \<union> url ` set batch,
                    dispatched := dispatched st @ batch\<rparr>))"
    by (rule crawl_step_Continue)
  define new where "new = discovered E (urlCache st \<union> url ` set batch) k (map (settle E) batch)"
  have q': "queue st' = q' @ new" and d': "dispatched st' = dispatched st @ batch"
    and c': "urlCache st' = urlCache st \<union> url ` set batch"
    by (simp_all add: st' second_pass_queue new_def)
  from inv have s: "s \<in> urlCache st' \<or> (\<forall>u. new_URL E u \<noteq> Some s)"
    by (auto simp: once_def c')
  have "new_URL E (url e) = Some (url e) \<and> url e \<noteq> s" if "e \<in> set new" for e
  proof -
    from discovered_normal[OF idem that[unfolded new_def]]
    have "new_URL E (url e) = Some (url e)" "url e \<notin> urlCache st'" by (simp_all add: c')
    with s show ?thesis by metis
  qed
  moreover from inv q have "\<forall>e\<in>set q'. new_URL E (url e) = Some (url e) \<and> url e \<noteq> s"
    by (auto simp: once_def)
  ultimately have "\<forall>e\<in>set (queue st'). new_URL E (url e) = Some (url e) \<and> url e \<noteq> s"
    by (auto simp: q')
  with once_dispatch[OF inv q p] s show ?thesis
    by (simp add: once_def d')
qed

text \<open>The first turn, from the variables as \<open>crawlKHops\<close> sets them up.\<close>

lemma once_first:
  assumes idem: "idempotent E"
    and step: "crawl_step E L s k (initial s cache) = Continue st'"
  shows "once E s st'"
proof -
  let ?st = "initial s cache"
  from step obtain consumed batch q' where
    q: "queue ?st = consumed @ q'" and ne: "batch \<noteq> []"
    and p: "picks E s k (urlCache ?st) consumed batch (urlCache st')"
    and st': "st' = second_pass E k (map (settle E) batch)
             (first_pass (map (settle E) batch)
                (?st\<lparr>queue := q', urlCache := urlCache ?st \<union> url ` set batch,
                    dispatched := dispatched ?st @ batch\<rparr>))"
    by (rule crawl_step_Continue)
  from q have single: "[\<lparr>url = s, depth = 0\<rparr>] = consumed @ q'"
    by (simp add: initial_def)
  from picks_prefix_single[OF p single ne] obtain n where
    b: "batch = [\<lparr>url = n, depth = 0\<rparr>]" and n: "new_URL E s = Some n"
    by auto
  from p ne have "consumed \<noteq> []" by (auto elim: picks.cases)
  with single have qe: "q' = []" by (cases consumed) auto
  define new where "new = discovered E (cache \<union> {n}) k (map (settle E) batch)"
  have q': "queue st' = new" and d': "dispatched st' = batch"
    and c': "urlCache st' = cache \<union> {n}"
    by (simp_all add: st' second_pass_queue new_def qe b initial_def)
  have s: "s \<in> urlCache st' \<or> (\<forall>u. new_URL E u \<noteq> Some s)"
  proof (cases "n = s")
    case True
    then show ?thesis by (simp add: c')
  next
    case False
    have "new_URL E u \<noteq> Some s" for u
    proof
      assume "new_URL E u = Some s"
      with idem have "new_URL E s = Some s" by (auto simp: idempotent_def)
      with n False show False by simp
    qed
    then show ?thesis by simp
  qed
  have "new_URL E (url e) = Some (url e) \<and> url e \<noteq> s" if "e \<in> set new" for e
  proof -
    from discovered_normal[OF idem that[unfolded new_def]]
    have "new_URL E (url e) = Some (url e)" "url e \<notin> urlCache st'" by (simp_all add: c')
    with s show ?thesis by metis
  qed
  with s show ?thesis
    by (simp add: once_def q' d' c' b)
qed

lemma once_visited:
  assumes idem: "idempotent E" and v: "visited E L s k (initial s cache) st"
  shows "st = initial s cache \<or> once E s st"
  using v
proof (induction rule: visited.induct)
  case visited_start
  show ?case by simp
next
  case (visited_step st st')
  then show ?case
    using once_first[OF idem] once_step[OF idem] by blast
qed

lemma dispatched_distinct:
  assumes idem: "idempotent E"
  shows "distinct (map url (dispatched (final_state (crawl_run E L s k cache))))"
proof (cases rule: crawl_run_cases[of E L s k cache])
  case (Returned st st')
  from once_visited[OF idem Returned(1)] crawl_step_Break[OF Returned(2)] Returned(3)
  show ?thesis by (auto simp: once_def initial_def)
next
  case (Caught st st')
  from crawl_step_Throw[OF Caught(2)] obtain consumed batch where
    q: "queue st = consumed @ queue st'" and ne: "batch \<noteq> []"
    and p: "picks E s k (urlCache st) consumed batch (urlCache st')"
    and d: "dispatched st' = dispatched st @ batch"
    by blast
  from once_visited[OF idem Caught(1)] show ?thesis
  proof
    assume init: "st = initial s cache"
    with q have "[\<lparr>url = s, depth = 0\<rparr>] = consumed @ queue st'"
      by (simp add: initial_def)
    from picks_prefix_single[OF p this ne] init d Caught(3) show ?thesis
      by (auto simp: initial_def)
  next
    assume "once E s st"
    from once_dispatch(1)[OF this q p] d Caught(3) show ?thesis by simp
  qed
qed

text \<open>
  Claim C3. In one crawl \<open>getPageInfo\<close> is called at most once on an address, whatever
  the queue holds twice and whatever was visited before: the log of dispatched elements
  has no address twice. This includes the start address, for which the inner loop does
  not consult the visited set.
\<close>

theorem fetch_at_most_once:
  assumes "idempotent E"
  shows "distinct (map url (dispatched (final_state (crawl_run E L startUrl k cache))))"
  using assms by (rule dispatched_distinct)

theorem fetch_at_most_once_witness:
  "idempotent E0
   \<and> map url (dispatched (final_state (crawl_run E0 LIMITS ''a'' 2 {})))
       = [''a'', ''b'', ''c'', ''e'', ''d'']
   \<and> distinct (map url (dispatched (final_state (crawl_run E0 LIMITS ''a'' 2 {}))))"
proof -
  have idem: "idempotent E0"
    by (simp add: idempotent_def E0_def)
  show ?thesis
    using idem fetch_at_most_once [OF idem, of LIMITS "''a''" 2 "{}"]
    by (simp add: sample_simps)
qed

section \<open>The start address is fetched once\<close>

lemma picks_new:
  "picks E s k cache consumed taken cache' \<Longrightarrow>
   \<forall>e\<in>set taken. url e = s \<or> url e \<notin> cache"
  by (induction rule: picks.induct) auto

text \<open>Apart from the start address, nothing visited before the crawl is fetched.\<close>

definition only_new :: "url \<Rightarrow> url set \<Rightarrow> crawl_state \<Rightarrow> bool" where
  "only_new s cache st \<longleftrightarrow>
     cache \<subseteq> urlCache st \<and> (\<forall>e\<in>set (dispatched st). url e = s \<or> url e \<notin> cache)"

lemma only_new_dispatch:
  assumes "only_new s cache st" "picks E s k (urlCache st) consumed batch cache'"
  shows "\<forall>e\<in>set (dispatched st @ batch). url e = s \<or> url e \<notin> cache"
  using assms picks_new[OF assms(2)] by (auto simp: only_new_def)

lemma only_new_step:
  assumes inv: "only_new s cache st" and step: "crawl_step E L s k st = Continue st'"
  shows "only_new s cache st'"
proof -
  from step obtain consumed batch q' where
    p: "picks E s k (urlCache st) consumed batch (urlCache st')"
    and st': "st' = second_pass E k (map (settle E) batch)
             (first_pass (map (settle E) batch)
                (st\<lparr>queue := q', urlCache := urlCache st \<union> url ` set batch,
                    dispatched := dispatched st @ batch\<rparr>))"
    by (rule crawl_step_Continue)
  have "dispatched st' = dispatched st @ batch"
    "urlCache st' = urlCache st \<union> url ` set batch"
    by (simp_all add: st')
  with only_new_dispatch[OF inv p] inv show ?thesis
    by (auto simp: only_new_def)
qed

lemma only_new_final:
  "\<forall>e\<in>set (dispatched (final_state (crawl_run E L s k cache))). url e = s \<or> url e \<notin> cache"
proof (cases rule: crawl_run_cases[of E L s k cache])
  case (Returned st st')
  have "only_new s cache st"
    using Returned(1)
  proof (rule visited_invariant)
    show "only_new s cache (initial s cache)" by (simp add: only_new_def initial_def)
  qed (rule only_new_step)
  with crawl_step_Break[OF Returned(2)] Returned(3) show ?thesis
    by (simp add: only_new_def)
next
  case (Caught st st')
  have inv: "only_new s cache st"
    using Caught(1)
  proof (rule visited_invariant)
    show "only_new s cache (initial s cache)" by (simp add: only_new_def initial_def)
  qed (rule only_new_step)
  from crawl_step_Throw[OF Caught(2)] obtain consumed batch where
    p: "picks E s k (urlCache st) consumed batch (urlCache st')"
    and d: "dispatched st' = dispatched st @ batch"
    by blast
  from only_new_dispatch[OF inv p] d Caught(3) show ?thesis by simp
qed

text \<open>The log only grows.\<close>

lemma dispatched_grows:
  assumes "visited E L s k st0 st"
  shows "set (dispatched st0) \<subseteq> set (dispatched st)"
  using assms
proof (induction rule: visited.induct)
  case visited_start
  show ?case by simp
next
  case (visited_step st st')
  from visited_step.hyps(2) obtain batch q' where
    "st' = second_pass E k (map (settle E) batch)
             (first_pass (map (settle E) batch)
                (st\<lparr>queue := q', urlCache := urlCache st \<union> url ` set batch,
                    dispatched := dispatched st @ batch\<rparr>))"
    by (rule crawl_step_Continue)
  then have "dispatched st' = dispatched st @ batch" by simp
  with visited_step.IH show ?case by auto
qed

lemma dispatched_grows_final:
  "set (dispatched st0) \<subseteq> set (dispatched (final_state (crawl_loop E L s k st0)))"
proof -
  obtain st where v: "visited E L s k st0 st"
    and last: "case crawl_loop E L s k st0 of
        Returned st' \<Rightarrow> crawl_step E L s k st = Break st'
      | Caught st' \<Rightarrow> crawl_step E L s k st = Throw st'"
    using crawl_loop_last by blast
  show ?thesis
  proof (cases "crawl_loop E L s k st0")
    case (Returned st')
    with last have "crawl_step E L s k st = Break st'" by simp
    from crawl_step_Break[OF this] dispatched_grows[OF v] Returned show ?thesis by simp
  next
    case (Caught st')
    with last have "crawl_step E L s k st = Throw st'" by simp
    from crawl_step_Throw[OF this] dispatched_grows[OF v] Caught show ?thesis by auto
  qed
qed

text \<open>The first batch is the start element, when its address is a normal form.\<close>

lemma first_batch:
  assumes "new_URL E s = Some s" "0 \<le> k" "0 < c"
  shows "fill_batch E c s k [\<lparr>url = s, depth = 0\<rparr>] cache []
           = ([\<lparr>url = s, depth = 0\<rparr>], [], insert s cache)"
  using assms by simp

lemma start_dispatched:
  assumes n: "new_URL E s = Some s" and k: "0 \<le> k"
    and t: "0 < TOTAL_NODES L" and c: "0 < CONCURRENT_FETCHES L"
  shows "\<lparr>url = s, depth = 0\<rparr> \<in> set (dispatched (final_state (crawl_run E L s k cache)))"
proof -
  let ?st0 = "initial s cache"
  let ?e = "\<lparr>url = s, depth = 0\<rparr>"
  have fb: "fill_batch E (CONCURRENT_FETCHES L) s k (queue ?st0) (urlCache ?st0) []
              = ([?e], [], insert s cache)"
    using first_batch[OF n k c] by (simp add: initial_def)
  show ?thesis
  proof (cases "internal_error E (Suc 0)")
    case True
    with t fb have "crawl_step E L s k ?st0
        = Throw (?st0\<lparr>queue := [], urlCache := insert s cache, dispatched := [?e]\<rparr>)"
      by (simp add: crawl_step_def Let_def initial_def)
    then have "crawl_run E L s k cache
        = Caught (?st0\<lparr>queue := [], urlCache := insert s cache, dispatched := [?e]\<rparr>)"
      unfolding crawl_run_def by (subst crawl_loop.simps) simp
    then show ?thesis by simp
  next
    case False
    define st1 where "st1 = second_pass E k (map (settle E) [?e])
        (first_pass (map (settle E) [?e])
           (?st0\<lparr>queue := [], urlCache := insert s cache, dispatched := [?e]\<rparr>))"
    from False t fb have "crawl_step E L s k ?st0 = Continue st1"
      by (simp add: crawl_step_def Let_def initial_def st1_def)
    then have "crawl_run E L s k cache = crawl_loop E L s k st1"
      unfolding crawl_run_def by (subst crawl_loop.simps) simp
    moreover have "?e \<in> set (dispatched st1)"
      by (simp add: st1_def)
    ultimately show ?thesis
      using dispatched_grows_final[of st1 E L s k] by auto
  qed
qed

text \<open>
  Claim C7, as the code has it. When \<open>k\<close> is not negative (and the limits allow at least
  one node and one fetch per batch), a request to \<open>/api/crawl\<close> fetches the normal form
  of its address exactly once, also when that address was visited before; every other
  address it fetches was not visited before the request.
\<close>

theorem seed_fetched_exactly_once:
  assumes "idempotent E" and "new_URL E u = Some s"
    and "0 \<le> (case k_opt of None \<Rightarrow> 2 | Some k \<Rightarrow> k)"
    and "0 < TOTAL_NODES L" and "0 < CONCURRENT_FETCHES L"
  shows "length (filter (\<lambda>e. url e = s) (snd (snd (api_crawl E L u k_opt reset cache0)))) = 1
     \<and> (\<forall>e\<in>set (snd (snd (api_crawl E L u k_opt reset cache0))).
           url e \<noteq> s \<longrightarrow> url e \<notin> (if reset then {} else cache0))"
proof -
  define k where "k = (case k_opt of None \<Rightarrow> 2 | Some k \<Rightarrow> k)"
  define cache1 where "cache1 = (if reset then {} else cache0)"
  define log where "log = dispatched (final_state (crawl_run E L s k (cache1 - {s})))"
  have log: "snd (snd (api_crawl E L u k_opt reset cache0)) = log"
    using assms(2) by (simp add: api_crawl_def Let_def log_def k_def cache1_def)
  from assms(1,2) have n: "new_URL E s = Some s"
    by (auto simp: idempotent_def)
  have start: "\<lparr>url = s, depth = 0\<rparr> \<in> set log"
    unfolding log_def using n assms(3-5) by (intro start_dispatched) (simp_all add: k_def)
  have "distinct (map url log)"
    unfolding log_def by (rule dispatched_distinct[OF assms(1)])
  from distinct_filter_one[OF this start] have "length (filter (\<lambda>e. url e = s) log) = 1"
    by simp
  moreover have "\<forall>e\<in>set log. url e \<noteq> s \<longrightarrow> url e \<notin> cache1"
    using only_new_final[of E L s k "cache1 - {s}"] by (auto simp: log_def)
  ultimately show ?thesis
    by (simp add: log cache1_def)
qed

text \<open>
  A request for \<open>a\<close> when \<open>a\<close> and \<open>b\<close> were visited before: \<open>a\<close> is fetched again,
  \<open>b\<close> is not.
\<close>

lemma sample_request:
  "api_crawl E0 LIMITS ''a'' None False {''a'', ''b''} =
     (Json
       \<lparr>gnodes =
          [\<lparr>node_id = ''a'', node_title = ''A'', node_favicon = None\<rparr>,
           \<lparr>node_id = ''c'', node_title = ''c'', node_favicon = None\<rparr>,
           \<lparr>node_id = ''e'', node_title = ''E'', node_favicon = None\<rparr>],
        glinks = [(''a'', ''c''), (''a'', ''a''), (''a'', ''e'')]\<rparr>,
      {''d'', ''e'', ''c'', ''a'', ''b''},
      [\<lparr>url = ''a'', depth = 0\<rparr>, \<lparr>url = ''c'', depth = 1\<rparr>,
       \<lparr>url = ''e'', depth = 1\<rparr>, \<lparr>url = ''d'', depth = 2\<rparr>])"
  by (simp add: run_simps insert_commute)

theorem seed_fetched_exactly_once_witness:
  "idempotent E0 \<and> new_URL E0 ''a'' = Some ''a''
   \<and> (0::int) \<le> (case None of None \<Rightarrow> 2 | Some k \<Rightarrow> k)
   \<and> 0 < TOTAL_NODES LIMITS \<and> 0 < CONCURRENT_FETCHES LIMITS
   \<and> map url (snd (snd (api_crawl E0 LIMITS ''a'' None False {''a'', ''b''})))
       = [''a'', ''c'', ''e'', ''d'']
   \<and> length (filter (\<lambda>e. url e = ''a'')
        (snd (snd (api_crawl E0 LIMITS ''a'' None False {''a'', ''b''})))) = 1"
proof -
  have h: "idempotent E0" "new_URL E0 ''a'' = Some ''a''"
    "(0::int) \<le> (case None of None \<Rightarrow> 2 | Some k \<Rightarrow> k)"
    "0 < TOTAL_NODES LIMITS" "0 < CONCURRENT_FETCHES LIMITS"
    by (simp_all add: idempotent_def E0_def LIMITS_def)
  show ?thesis
    using h seed_fetched_exactly_once [OF h, of False "{''a'', ''b''}"]
    by (simp add: sample_request)
qed

text \<open>
  Claim C7 as stated fails for a negative \<open>k\<close>: the inner loop drops every element deeper
  than \<open>k\<close>, the start element included, and the request fetches nothing.
\<close>

theorem seed_skipped_for_negative_k:
  "new_URL E0 ''a'' = Some ''a''
   \<and> snd (snd (api_crawl E0 LIMITS ''a'' (Some (- 1)) False {})) = []"
  by (simp add: run_simps)

section \<open>Which links are recorded\<close>

lemma set_set_add [simp]: "set (set_add x xs) = insert x (set xs)"
  by (auto simp: set_add_def)

lemma link_loop_link_set:
  "set (link_set (link_loop E u d ls st))
     = set (link_set st) \<union> {(u, n) | n. \<exists>l\<in>set ls. new_URL E l = Some n}"
  by (induction ls arbitrary: st) (auto simp: Let_def split: option.splits)

text \<open>The links that the results of one batch contribute.\<close>

definition links_of :: "env \<Rightarrow> int \<Rightarrow> (url \<times> int \<times> pageInfo) settled list \<Rightarrow> (url \<times> url) set" where
  "links_of E k rs =
     {(u, n) | u n d p. fulfilled (u, d, p) \<in> set rs \<and> d < k
        \<and> (\<exists>l\<in>set (links p). new_URL E l = Some n)}"

lemma links_of_simps:
  "links_of E k [] = {}"
  "links_of E k (rejected # rs) = links_of E k rs"
  "links_of E k (fulfilled (u, d, p) # rs) =
     (if d < k then {(u, n) | n. \<exists>l\<in>set (links p). new_URL E l = Some n} else {})
       \<union> links_of E k rs"
  by (auto simp: links_of_def)

lemma second_pass_link_set:
  "set (link_set (second_pass E k rs st)) = set (link_set st) \<union> links_of E k rs"
proof (induction E k rs st rule: second_pass.induct)
  case (1 E k st)
  show ?case by (simp add: links_of_simps)
next
  case (2 E k results st)
  then show ?case by (simp add: links_of_simps)
next
  case (3 E k u d pageInfo results st)
  show ?case
  proof (cases "d < k")
    case True
    with 3 show ?thesis
      by (simp add: links_of_simps link_loop_link_set Let_def Un_assoc)
  next
    case False
    with 3 show ?thesis
      by (simp add: links_of_simps Let_def)
  qed
qed

text \<open>
  The links that the fetches of a list of dispatched elements give rise to: from each
  fulfilled fetch at a depth below \<open>k\<close>, one link to the normal form of each of its links
  that parses.
\<close>

definition links_from :: "env \<Rightarrow> int \<Rightarrow> entry list \<Rightarrow> (url \<times> url) set" where
  "links_from E k es =
     {(url e, n) | e n p. e \<in> set es \<and> depth e < k \<and> getPageInfo E (url e) = fulfilled p
        \<and> (\<exists>l\<in>set (links p). new_URL E l = Some n)}"

lemma links_of_settle: "links_of E k (map (settle E) batch) = links_from E k batch"
  unfolding links_of_def links_from_def settle_fulfilled by blast

lemma links_from_append: "links_from E k (xs @ ys) = links_from E k xs \<union> links_from E k ys"
  by (auto simp: links_from_def)

definition recorded :: "env \<Rightarrow> int \<Rightarrow> crawl_state \<Rightarrow> bool" where
  "recorded E k st \<longleftrightarrow> set (link_set st) = links_from E k (dispatched st)"

lemma recorded_step:
  assumes inv: "recorded E k st" and step: "crawl_step E L s k st = Continue st'"
  shows "recorded E k st'"
proof -
  from step obtain batch q' where
    st': "st' = second_pass E k (map (settle E) batch)
             (first_pass (map (settle E) batch)
                (st\<lparr>queue := q', urlCache := urlCache st \<union> url ` set batch,
                    dispatched := dispatched st @ batch\<rparr>))"
    by (rule crawl_step_Continue)
  have "set (link_set st') = set (link_set st) \<union> links_from E k batch"
    by (simp add: st' second_pass_link_set links_of_settle)
  moreover have "dispatched st' = dispatched st @ batch"
    by (simp add: st')
  ultimately show ?thesis
    using inv by (simp add: recorded_def links_from_append)
qed

lemma recorded_visited:
  assumes "visited E L s k (initial s0 cache) st"
  shows "recorded E k st"
  using assms
proof (rule visited_invariant)
  show "recorded E k (initial s0 cache)"
    by (simp add: recorded_def initial_def links_from_def)
qed (rule recorded_step)

lemma recorded_final:
  "set (link_set (final_state (crawl_run E L s k cache)))
     \<subseteq> links_from E k (dispatched (final_state (crawl_run E L s k cache)))"
  and recorded_Returned:
  "crawl_run E L s k cache = Returned st
     \<Longrightarrow> set (link_set st) = links_from E k (dispatched st)"
proof -
  show "set (link_set (final_state (crawl_run E L s k cache)))
     \<subseteq> links_from E k (dispatched (final_state (crawl_run E L s k cache)))"
  proof (cases rule: crawl_run_cases[of E L s k cache])
    case (Returned st st')
    from recorded_visited[OF Returned(1)] crawl_step_Break[OF Returned(2)] Returned(3)
    show ?thesis by (simp add: recorded_def)
  next
    case (Caught st st')
    from crawl_step_Throw[OF Caught(2)] obtain batch where
      "link_set st' = link_set st" "dispatched st' = dispatched st @ batch" by blast
    with recorded_visited[OF Caught(1)] Caught(3) show ?thesis
      by (simp add: recorded_def links_from_append)
  qed
  show "set (link_set st) = links_from E k (dispatched st)"
    if "crawl_run E L s k cache = Returned st"
  proof (cases rule: crawl_run_cases[of E L s k cache])
    case (Returned st0 st')
    from recorded_visited[OF Returned(1)] crawl_step_Break[OF Returned(2)] Returned(3) that
    show ?thesis by (simp add: recorded_def)
  next
    case (Caught st0 st')
    with that show ?thesis by simp
  qed
qed

text \<open>
  Claim C4. No link is recorded from a page fetched at depth \<open>k\<close> or deeper: every
  recorded link has as source an address dispatched at a depth below \<open>k\<close>, and, an
  address being fetched once, at no other depth. And when the crawl returns, every
  fulfilled fetch at a depth below \<open>k\<close> has a recorded link to the normal form of each of
  its links that parses, whether or not the target was visited, queued or fetched.
\<close>

theorem links_recorded_below_depth_k:
  "(\<forall>(source, target)\<in>set (link_set (final_state (crawl_run E L startUrl k cache))).
      \<exists>e\<in>set (dispatched (final_state (crawl_run E L startUrl k cache))).
         url e = source \<and> depth e < k)
   \<and> (idempotent E \<longrightarrow>
        (\<forall>(source, target)\<in>set (link_set (final_state (crawl_run E L startUrl k cache))).
           \<forall>e\<in>set (dispatched (final_state (crawl_run E L startUrl k cache))).
             url e = source \<longrightarrow> depth e < k))
   \<and> (\<forall>st. crawl_run E L startUrl k cache = Returned st \<longrightarrow>
        (\<forall>e\<in>set (dispatched st). \<forall>pageInfo.
           depth e < k \<and> getPageInfo E (url e) = fulfilled pageInfo \<longrightarrow>
           (\<forall>l\<in>set (links pageInfo). \<forall>n. new_URL E l = Some n \<longrightarrow>
              (url e, n) \<in> set (link_set st))))"
proof -
  let ?st = "final_state (crawl_run E L startUrl k cache)"
  have src: "\<exists>e\<in>set (dispatched ?st). url e = a \<and> depth e < k"
    if "(a, b) \<in> set (link_set ?st)" for a b
    using recorded_final[of E L startUrl k cache] that by (auto simp: links_from_def)
  then have 1: "\<forall>(source, target)\<in>set (link_set ?st).
      \<exists>e\<in>set (dispatched ?st). url e = source \<and> depth e < k"
    by auto
  have once: "depth e < k"
    if idem: "idempotent E" and ab: "(a, b) \<in> set (link_set ?st)"
      and e: "e \<in> set (dispatched ?st)" and u: "url e = a" for a b e
  proof -
    from src[OF ab] u obtain e' where
      e': "e' \<in> set (dispatched ?st)" "url e' = url e" "depth e' < k"
      by auto
    from distinct_map_eq[OF dispatched_distinct[OF idem] e e'(1)] e'(2) have "e = e'"
      by simp
    with e'(3) show "depth e < k" by simp
  qed
  have 2: "idempotent E \<longrightarrow> (\<forall>(source, target)\<in>set (link_set ?st).
           \<forall>e\<in>set (dispatched ?st). url e = source \<longrightarrow> depth e < k)"
    using once by blast
  have 3: "\<forall>e\<in>set (dispatched st). \<forall>pageInfo.
           depth e < k \<and> getPageInfo E (url e) = fulfilled pageInfo \<longrightarrow>
           (\<forall>l\<in>set (links pageInfo). \<forall>n. new_URL E l = Some n \<longrightarrow>
              (url e, n) \<in> set (link_set st))"
    if r: "crawl_run E L startUrl k cache = Returned st" for st
    unfolding recorded_Returned[OF r] links_from_def by blast
  from 3 have "\<forall>st. crawl_run E L startUrl k cache = Returned st \<longrightarrow>
        (\<forall>e\<in>set (dispatched st). \<forall>pageInfo.
           depth e < k \<and> getPageInfo E (url e) = fulfilled pageInfo \<longrightarrow>
           (\<forall>l\<in>set (links pageInfo). \<forall>n. new_URL E l = Some n \<longrightarrow>
              (url e, n) \<in> set (link_set st)))"
    by (intro allI impI)
  with 1 2 show ?thesis by (intro conjI)
qed

text \<open>
  On the small web with \<open>k = 2\<close> the links from \<open>a\<close> to itself and from \<open>b\<close> and \<open>e\<close> to
  \<open>d\<close> are recorded, though \<open>a\<close> was visited and \<open>d\<close> never became a node; with \<open>k = 1\<close>
  the pages \<open>b\<close> and \<open>e\<close>, fetched at depth 1, contribute no link.
\<close>

lemma sample_run_depth1:
  "crawl_run E0 LIMITS ''a'' 1 {} =
     Returned
      \<lparr>nodes =
         [(''a'', \<lparr>node_id = ''a'', node_title = ''A'', node_favicon = None\<rparr>),
          (''b'', \<lparr>node_id = ''b'', node_title = ''b'', node_favicon = None\<rparr>),
          (''c'', \<lparr>node_id = ''c'', node_title = ''c'', node_favicon = None\<rparr>),
          (''e'', \<lparr>node_id = ''e'', node_title = ''E'', node_favicon = None\<rparr>)],
       link_set = [(''a'', ''b''), (''a'', ''c''), (''a'', ''a''), (''a'', ''e'')],
       queue = [], processedCount = 4,
       urlCache = {''e'', ''c'', ''b'', ''a''},
       dispatched =
         [\<lparr>url = ''a'', depth = 0\<rparr>, \<lparr>url = ''b'', depth = 1\<rparr>,
          \<lparr>url = ''c'', depth = 1\<rparr>, \<lparr>url = ''e'', depth = 1\<rparr>]\<rparr>"
  by (simp add: run_simps)

theorem links_recorded_below_depth_k_witness:
  "idempotent E0
   \<and> link_set (final_state (crawl_run E0 LIMITS ''a'' 2 {}))
       = [(''a'', ''b''), (''a'', ''c''), (''a'', ''a''), (''a'', ''e''),
          (''b'', ''d''), (''b'', ''c''), (''e'', ''d'')]
   \<and> map depth (dispatched (final_state (crawl_run E0 LIMITS ''a'' 2 {}))) = [0, 1, 1, 1, 2]
   \<and> getPageInfo E0 ''b'' = fulfilled \<lparr>title = [], links = [''d'', ''c''], favicon = None\<rparr>
   \<and> new_URL E0 ''d'' = Some ''d''
   \<and> link_set (final_state (crawl_run E0 LIMITS ''a'' 1 {}))
       = [(''a'', ''b''), (''a'', ''c''), (''a'', ''a''), (''a'', ''e'')]"
proof -
  have idem: "idempotent E0"
    by (simp add: idempotent_def E0_def)
  have page: "getPageInfo E0 ''b''
      = fulfilled \<lparr>title = [], links = [''d'', ''c''], favicon = None\<rparr>"
    "new_URL E0 ''d'' = Some ''d''"
    by (simp_all add: getPageInfo_def E0_def web_def page_def)
  from links_recorded_below_depth_k [of E0 LIMITS "''a''" 2 "{}"] idem page
  show ?thesis
    by (simp add: sample_run sample_run_depth1)
qed

section \<open>The loop ends, and when\<close>

lemma step_relation_wf: "wf {(st', st). crawl_step E L s k st = Continue st'}"
proof (rule wf_subset)
  show "wf (inv_image (mult {(a::nat, b). a < b}) (\<lambda>st. weight k (queue st)))"
    by (intro wf_inv_image wf_mult) (simp add: wf_less)
  show "{(st', st). crawl_step E L s k st = Continue st'}
          \<subseteq> inv_image (mult {(a::nat, b). a < b}) (\<lambda>st. weight k (queue st))"
    by (auto simp: step_decreases)
qed

lemma empty_batch_iff:
  assumes fb: "fill_batch E c s k q cache [] = (batch, q', cache')" and c: "0 < c"
  shows "batch = [] \<longleftrightarrow> (\<forall>e\<in>set q. \<not> dispatchable E s k cache e)"
proof -
  from fill_batch_picks[OF fb] obtain consumed where
    q: "q = consumed @ q'" and p: "picks E s k cache consumed batch cache'"
    and full: "q' = [] \<or> c \<le> length batch"
    by auto
  show ?thesis
  proof
    assume "batch = []"
    with full c q have "consumed = q" by simp
    with picks_empty[OF p] \<open>batch = []\<close> show "\<forall>e\<in>set q. \<not> dispatchable E s k cache e"
      by simp
  next
    assume "\<forall>e\<in>set q. \<not> dispatchable E s k cache e"
    with q have "\<forall>e\<in>set consumed. \<not> dispatchable E s k cache e" by simp
    with picks_empty[OF p] show "batch = []" by simp
  qed
qed

lemma crawl_step_Continue_iff:
  assumes c: "0 < CONCURRENT_FETCHES L" and ok: "\<forall>n. \<not> internal_error E n"
  shows "(\<exists>st'. crawl_step E L s k st = Continue st') \<longleftrightarrow>
     \<not> (queue st = [] \<or> TOTAL_NODES L \<le> processedCount st
        \<or> (\<forall>e\<in>set (queue st). \<not> dispatchable E s k (urlCache st) e))"
proof -
  obtain batch q' cache' where
    fb: "fill_batch E (CONCURRENT_FETCHES L) s k (queue st) (urlCache st) [] = (batch, q', cache')"
    by (metis prod_cases3)
  from empty_batch_iff[OF fb c]
  have e: "batch = [] \<longleftrightarrow> (\<forall>e\<in>set (queue st). \<not> dispatchable E s k (urlCache st) e)" .
  have "(\<exists>st'. crawl_step E L s k st = Continue st') \<longleftrightarrow>
     queue st \<noteq> [] \<and> processedCount st < TOTAL_NODES L \<and> batch \<noteq> []"
    using fb ok by (auto simp: crawl_step_def Let_def)
  with e show ?thesis by auto
qed

text \<open>
  Claim C9. For every start address, depth and behaviour of the fetcher the loop ends:
  no sequence of turns goes on for ever. And, with at least one fetch per batch allowed
  and no error raised by the runtime, a turn is the last one exactly when the queue is
  empty, the processed count has reached the node budget, or no element of the queue
  would be dispatched (each is too deep, does not parse, or is visited and not the
  start address). Then the crawl returns from a state in which one of the three holds.
\<close>

theorem loop_ends_exactly_when:
  "wf {(st', st). crawl_step E L startUrl k st = Continue st'}
   \<and> (0 < CONCURRENT_FETCHES L \<and> (\<forall>n. \<not> internal_error E n) \<longrightarrow>
        ((\<forall>st'. crawl_step E L startUrl k st \<noteq> Continue st') \<longleftrightarrow>
           (queue st = [] \<or> TOTAL_NODES L \<le> processedCount st
            \<or> (\<forall>e\<in>set (queue st). \<not> dispatchable E startUrl k (urlCache st) e)))
        \<and> (\<exists>last st'. visited E L startUrl k (initial startUrl cache) last
              \<and> crawl_step E L startUrl k last = Break st'
              \<and> crawl_run E L startUrl k cache = Returned st'
              \<and> (queue last = [] \<or> TOTAL_NODES L \<le> processedCount last
                  \<or> (\<forall>e\<in>set (queue last). \<not> dispatchable E startUrl k (urlCache last) e))))"
proof (intro conjI impI)
  show "wf {(st', st). crawl_step E L startUrl k st = Continue st'}"
    by (rule step_relation_wf)
next
  assume a: "0 < CONCURRENT_FETCHES L \<and> (\<forall>n. \<not> internal_error E n)"
  then have c: "0 < CONCURRENT_FETCHES L" and ok: "\<forall>n. \<not> internal_error E n" by simp_all
  show "(\<forall>st'. crawl_step E L startUrl k st \<noteq> Continue st') \<longleftrightarrow>
           (queue st = [] \<or> TOTAL_NODES L \<le> processedCount st
            \<or> (\<forall>e\<in>set (queue st). \<not> dispatchable E startUrl k (urlCache st) e))"
    using crawl_step_Continue_iff[OF c ok, of startUrl k st] by blast
  show "\<exists>last st'. visited E L startUrl k (initial startUrl cache) last
              \<and> crawl_step E L startUrl k last = Break st'
              \<and> crawl_run E L startUrl k cache = Returned st'
              \<and> (queue last = [] \<or> TOTAL_NODES L \<le> processedCount last
                  \<or> (\<forall>e\<in>set (queue last). \<not> dispatchable E startUrl k (urlCache last) e))"
  proof (cases rule: crawl_run_cases[of E L startUrl k cache])
    case (Returned last st')
    from Returned(2) have "\<not> (\<exists>x. crawl_step E L startUrl k last = Continue x)" by simp
    with crawl_step_Continue_iff[OF c ok, of startUrl k last] Returned show ?thesis
      by blast
  next
    case (Caught last st')
    with crawl_step_no_Throw[OF ok] show ?thesis by blast
  qed
qed

theorem loop_ends_exactly_when_witness:
  "0 < CONCURRENT_FETCHES LIMITS \<and> (\<forall>n. \<not> internal_error E0 n)
   \<and> queue (initial ''a'' {}) \<noteq> [] \<and> processedCount (initial ''a'' {}) < TOTAL_NODES LIMITS
   \<and> dispatchable E0 ''a'' 2 (urlCache (initial ''a'' {})) \<lparr>url = ''a'', depth = 0\<rparr>
   \<and> (\<exists>st'. crawl_step E0 LIMITS ''a'' 2 (initial ''a'' {}) = Continue st')
   \<and> queue (final_state (crawl_run E0 LIMITS ''a'' 2 {})) = []"
proof -
  have h: "0 < CONCURRENT_FETCHES LIMITS \<and> (\<forall>n. \<not> internal_error E0 n)"
    by (simp add: LIMITS_def E0_def)
  have d: "dispatchable E0 ''a'' 2 (urlCache (initial ''a'' {})) \<lparr>url = ''a'', depth = 0\<rparr>"
    by (simp add: dispatchable_def E0_def initial_def)
  have q: "queue (initial ''a'' {}) = [\<lparr>url = ''a'', depth = 0\<rparr>]"
    "processedCount (initial ''a'' {}) < TOTAL_NODES LIMITS"
    by (simp_all add: initial_def LIMITS_def)
  from loop_ends_exactly_when [of E0 LIMITS "''a''" 2 "initial ''a'' {}" "{}"] h d q
  have "\<exists>st'. crawl_step E0 LIMITS ''a'' 2 (initial ''a'' {}) = Continue st'"
    by auto
  with h d q show ?thesis
    by (simp add: sample_run)
qed

section \<open>A failed fetch degrades to a bare node\<close>

text \<open>The node that the first pass stores for a fulfilled fetch.\<close>

definition node_of :: "url \<Rightarrow> pageInfo \<Rightarrow> node" where
  "node_of u pageInfo =
     \<lparr>node_id = u,
      node_title = (if title pageInfo = [] then u else title pageInfo),
      node_favicon = favicon pageInfo\<rparr>"

lemma first_pass_map_of:
  "map_of (nodes (first_pass (map (settle E) batch) st)) u =
     (case getPageInfo E u of
        fulfilled p \<Rightarrow> if u \<in> url ` set batch then Some (node_of u p) else map_of (nodes st) u
      | rejected \<Rightarrow> map_of (nodes st) u)"
proof (induction batch arbitrary: st)
  case Nil
  show ?case by (simp split: settled.splits)
next
  case (Cons b batch)
  show ?case
  proof (cases "getPageInfo E (url b)")
    case rejected
    then have "settle E b = rejected" by (simp add: settle_eq_rejected)
    with Cons rejected show ?thesis
      by (auto split: settled.splits)
  next
    case (fulfilled p)
    then have s: "settle E b = fulfilled (url b, depth b, p)"
      by (simp add: settle_eq_fulfilled)
    show ?thesis
      using fulfilled
      by (simp add: s Cons update_conv' node_of_def del: AList.update.simps split: settled.splits)
  qed
qed

lemma is_fulfilled_settle: "is_fulfilled (settle E b) \<longleftrightarrow> is_fulfilled (getPageInfo E (url b))"
  by (cases "getPageInfo E (url b)") (simp_all add: settle_def)

text \<open>
  What the states of a crawl keep account of: a node for every fulfilled fetch, one
  unit of the processed count for each, and every fetched address in the visited set.
\<close>

definition accounted :: "env \<Rightarrow> crawl_state \<Rightarrow> bool" where
  "accounted E st \<longleftrightarrow>
     (\<forall>e\<in>set (dispatched st). \<forall>p. getPageInfo E (url e) = fulfilled p \<longrightarrow>
        map_of (nodes st) (url e) = Some (node_of (url e) p)) \<and>
     processedCount st
       = length (filter (\<lambda>e. is_fulfilled (getPageInfo E (url e))) (dispatched st)) \<and>
     url ` set (dispatched st) \<subseteq> urlCache st"

lemma accounted_step:
  assumes inv: "accounted E st" and step: "crawl_step E L s k st = Continue st'"
  shows "accounted E st'"
proof -
  from step obtain batch q' where
    st': "st' = second_pass E k (map (settle E) batch)
             (first_pass (map (settle E) batch)
                (st\<lparr>queue := q', urlCache := urlCache st \<union> url ` set batch,
                    dispatched := dispatched st @ batch\<rparr>))"
    by (rule crawl_step_Continue)
  have d: "dispatched st' = dispatched st @ batch"
    and c: "urlCache st' = urlCache st \<union> url ` set batch"
    by (simp_all add: st')
  have n: "map_of (nodes st') u =
     (case getPageInfo E u of
        fulfilled p \<Rightarrow> if u \<in> url ` set batch then Some (node_of u p) else map_of (nodes st) u
      | rejected \<Rightarrow> map_of (nodes st) u)" for u
    by (simp add: st' first_pass_map_of split: settled.splits)
  have pc: "processedCount st' = processedCount st
      + length (filter (\<lambda>e. is_fulfilled (getPageInfo E (url e))) batch)"
    by (simp add: st' second_pass_processedCount filter_map comp_def is_fulfilled_settle)
  have "map_of (nodes st') (url e) = Some (node_of (url e) p)"
    if "e \<in> set (dispatched st')" "getPageInfo E (url e) = fulfilled p" for e p
  proof (cases "url e \<in> url ` set batch")
    case True
    with that(2) show ?thesis by (simp add: n)
  next
    case False
    with that(1) have "e \<in> set (dispatched st)" by (auto simp: d)
    with inv that(2) have "map_of (nodes st) (url e) = Some (node_of (url e) p)"
      by (simp add: accounted_def)
    with False that(2) show ?thesis by (simp add: n)
  qed
  with inv pc show ?thesis
    by (auto simp: accounted_def d c)
qed

lemma accounted_Returned:
  assumes "crawl_run E L s k cache = Returned st"
  shows "accounted E st"
proof (cases rule: crawl_run_cases[of E L s k cache])
  case (Returned last st')
  have "accounted E last"
    using Returned(1)
  proof (rule visited_invariant)
    show "accounted E (initial s cache)" by (simp add: accounted_def initial_def)
  qed (rule accounted_step)
  with crawl_step_Break[OF Returned(2)] Returned(3) assms show ?thesis
    by (simp add: accounted_def)
next
  case (Caught last st')
  with assms show ?thesis by simp
qed






section \<open>An error in the loop\<close>

lemma Throw_ends_run:
  assumes "visited E L s k (initial s cache) st" and "crawl_step E L s k st = Throw st'"
  shows "crawl_run E L s k cache = Caught st'"
proof -
  have "crawl_loop E L s k st = Caught st'"
    using assms(2) by (subst crawl_loop.simps) simp
  with visited_crawl_loop[OF assms(1)] show ?thesis
    by (simp add: crawl_run_def)
qed

text \<open>
  Claim C2, as the code has it. When an error is raised in a turn of the loop, the crawl
  ends there, with the rest of the queue unprocessed, and \<open>crawlKHops\<close> returns the empty
  graph of its \<open>catch\<close>: the error is not passed on (the route answers with that graph,
  not with status 500), and the nodes and links gathered so far are not returned.
\<close>

theorem error_in_loop_returns_empty_graph:
  assumes "visited E L startUrl k (initial startUrl cache) st"
    and "crawl_step E L startUrl k st = Throw st'"
  shows "crawl_run E L startUrl k cache = Caught st'
     \<and> crawlKHops E L startUrl k cache = \<lparr>gnodes = [], glinks = []\<rparr>
     \<and> nodes st' = nodes st \<and> link_set st' = link_set st
     \<and> (new_URL E u = Some startUrl
          \<and> cache = (if reset then {} else cache0) - {startUrl} \<longrightarrow>
        fst (api_crawl E L u (Some k) reset cache0) = Json \<lparr>gnodes = [], glinks = []\<rparr>)"
proof -
  have r: "crawl_run E L startUrl k cache = Caught st'"
    by (rule Throw_ends_run[OF assms])
  then have g: "crawlKHops E L startUrl k cache = \<lparr>gnodes = [], glinks = []\<rparr>"
    by (simp add: crawlKHops_def)
  have "fst (api_crawl E L u (Some k) reset cache0) = Json \<lparr>gnodes = [], glinks = []\<rparr>"
    if "new_URL E u = Some startUrl" "cache = (if reset then {} else cache0) - {startUrl}"
    using that r by (simp add: api_crawl_def Let_def)
  with r g crawl_step_Throw[OF assms(2)] show ?thesis by simp
qed

text \<open>
  The small web again, with an error raised when the fourth fetch has been started: the
  node of \<open>a\<close> and its four links have been gathered by then.
\<close>

definition E1 :: env where
  "E1 = E0\<lparr>internal_error := (\<lambda>n. n = 4)\<rparr>"

lemma faulty_first_turn:
  "crawl_step E1 LIMITS ''a'' 2 (initial ''a'' {}) = Continue after_first_turn"
  by (simp add: E1_def run_simps after_first_turn_def)

lemma faulty_second_turn:
  "crawl_step E1 LIMITS ''a'' 2 after_first_turn =
     Throw (after_first_turn
       \<lparr>queue := [], urlCache := {''e'', ''c'', ''b'', ''a''},
        dispatched := [\<lparr>url = ''a'', depth = 0\<rparr>, \<lparr>url = ''b'', depth = 1\<rparr>,
                       \<lparr>url = ''c'', depth = 1\<rparr>, \<lparr>url = ''e'', depth = 1\<rparr>]\<rparr>)"
  by (simp add: E1_def run_simps after_first_turn_def)

theorem error_in_loop_returns_empty_graph_witness:
  "visited E1 LIMITS ''a'' 2 (initial ''a'' {}) after_first_turn
   \<and> crawl_step E1 LIMITS ''a'' 2 after_first_turn =
       Throw (after_first_turn
         \<lparr>queue := [], urlCache := {''e'', ''c'', ''b'', ''a''},
          dispatched := [\<lparr>url = ''a'', depth = 0\<rparr>, \<lparr>url = ''b'', depth = 1\<rparr>,
                         \<lparr>url = ''c'', depth = 1\<rparr>, \<lparr>url = ''e'', depth = 1\<rparr>]\<rparr>)
   \<and> crawlKHops E1 LIMITS ''a'' 2 {} = \<lparr>gnodes = [], glinks = []\<rparr>
   \<and> fst (api_crawl E1 LIMITS ''a'' (Some 2) False {}) = Json \<lparr>gnodes = [], glinks = []\<rparr>"
proof -
  have v: "visited E1 LIMITS ''a'' 2 (initial ''a'' {}) after_first_turn"
    by (rule visited_step[OF visited_start faulty_first_turn])
  have n: "new_URL E1 ''a'' = Some ''a''"
    by (simp add: E1_def E0_def)
  from error_in_loop_returns_empty_graph
    [OF v faulty_second_turn, of "''a''" False "{}"] v faulty_second_turn n
  show ?thesis by simp
qed

text \<open>
  Claim C2 as stated fails there: the graph gathered up to the error has the node of
  \<open>a\<close>, the graph returned has no node.
\<close>

theorem partial_graph_discarded:
  "gnodes (graph_of (final_state (crawl_run E1 LIMITS ''a'' 2 {})))
     = [\<lparr>node_id = ''a'', node_title = ''A'', node_favicon = None\<rparr>]
   \<and> crawlKHops E1 LIMITS ''a'' 2 {} = \<lparr>gnodes = [], glinks = []\<rparr>
   \<and> crawlKHops E1 LIMITS ''a'' 2 {} \<noteq> graph_of (final_state (crawl_run E1 LIMITS ''a'' 2 {}))"
proof -
  have v: "visited E1 LIMITS ''a'' 2 (initial ''a'' {}) after_first_turn"
    by (rule visited_step[OF visited_start faulty_first_turn])
  have "crawl_run E1 LIMITS ''a'' 2 {} =
     Caught (after_first_turn
       \<lparr>queue := [], urlCache := {''e'', ''c'', ''b'', ''a''},
        dispatched := [\<lparr>url = ''a'', depth = 0\<rparr>, \<lparr>url = ''b'', depth = 1\<rparr>,
                       \<lparr>url = ''c'', depth = 1\<rparr>, \<lparr>url = ''e'', depth = 1\<rparr>]\<rparr>)"
    by (rule Throw_ends_run[OF v faulty_second_turn])
  then show ?thesis
    by (simp add: crawlKHops_def graph_of_def after_first_turn_def)
qed

section \<open>More processed results than the node budget\<close>

text \<open>What a turn of the loop does to the queue, the visited set and the count.\<close>

lemma turn:
  assumes "queue st = q" and "urlCache st = cache" and "processedCount st = n"
    and "q \<noteq> []" and "n < TOTAL_NODES L" and "\<forall>m. \<not> internal_error E m"
    and "fill_batch E (CONCURRENT_FETCHES L) s k q cache [] = (batch, q', cache')"
    and "batch \<noteq> []"
  obtains st' where "crawl_step E L s k st = Continue st'"
    and "queue st' = q' @ discovered E cache' k (map (settle E) batch)"
    and "urlCache st' = cache'"
    and "processedCount st'
           = n + length (filter (\<lambda>e. is_fulfilled (getPageInfo E (url e))) batch)"
proof -
  define st' where "st' = second_pass E k (map (settle E) batch)
      (first_pass (map (settle E) batch)
         (st\<lparr>queue := q', urlCache := cache', dispatched := dispatched st @ batch\<rparr>))"
  have "crawl_step E L s k st = Continue st'"
    using assms by (simp add: crawl_step_def Let_def st'_def)
  moreover have "queue st' = q' @ discovered E cache' k (map (settle E) batch)"
    "urlCache st' = cache'"
    by (simp_all add: st'_def second_pass_queue)
  moreover have "processedCount st'
           = n + length (filter (\<lambda>e. is_fulfilled (getPageInfo E (url e))) batch)"
    using assms(3)
    by (simp add: st'_def second_pass_processedCount filter_map comp_def is_fulfilled_settle)
  ultimately show thesis by (rule that)
qed

text \<open>When the crawl returns, every fulfilled fetch has its own node.\<close>

lemma nodes_count:
  assumes idem: "idempotent E" and c: "0 < CONCURRENT_FETCHES L"
    and r: "crawl_run E L s k cache = Returned st"
  shows "length (gnodes (crawlKHops E L s k cache)) = processedCount st"
proof -
  define F where "F = filter (\<lambda>e. is_fulfilled (getPageInfo E (url e))) (dispatched st)"
  have acc: "accounted E st" by (rule accounted_Returned[OF r])
  have "distinct (map url (dispatched st))"
    using dispatched_distinct[OF idem, of L s k cache] r by simp
  then have dF: "distinct (map url F)"
    unfolding F_def by (rule distinct_map_filter)
  have "url e \<in> fst ` set (nodes st)" if "e \<in> set F" for e
  proof -
    from that have e: "e \<in> set (dispatched st)" "is_fulfilled (getPageInfo E (url e))"
      by (simp_all add: F_def)
    then obtain p where "getPageInfo E (url e) = fulfilled p"
      by (cases "getPageInfo E (url e)") simp_all
    with acc e(1) have "map_of (nodes st) (url e) = Some (node_of (url e) p)"
      by (simp add: accounted_def)
    then have "(url e, node_of (url e) p) \<in> set (nodes st)" by (rule map_of_SomeD)
    then show ?thesis by force
  qed
  then have "url ` set F \<subseteq> fst ` set (nodes st)" by blast
  then have "card (url ` set F) \<le> card (fst ` set (nodes st))"
    by (intro card_mono) simp_all
  also have "\<dots> \<le> card (set (nodes st))" by (intro card_image_le) simp
  also have "\<dots> \<le> length (nodes st)" by (rule card_length)
  finally have "length F \<le> length (nodes st)"
    using dF by (simp add: distinct_card[symmetric] del: set_map) (metis distinct_card length_map set_map)
  moreover have "processedCount st = length F"
    using acc by (simp add: accounted_def F_def)
  moreover have "length (nodes st) \<le> processedCount st"
    using within_budget_final[OF c, of E s k cache] r by (simp add: within_budget_def)
  ultimately show ?thesis
    by (simp add: crawlKHops_def r graph_of_def)
qed

text \<open>
  A web of 61 pages, no page with more than the 20 links that \<open>getPageInfo\<close> keeps:
  the start page \<open>0\<close> links to twenty pages, of which \<open>a\<close> links to twenty further pages
  and \<open>b\<close> to ten; no other page has a link. Every address is its own normal form and
  every fetch succeeds.
\<close>

definition web61 :: "url \<Rightarrow> browser_run" where
  "web61 u =
     (if u = ''0'' then page ''start'' (map (\<lambda>c. [c]) ''abcdefghijklmnopqrst'')
      else if u = ''a'' then page ''first'' (map (\<lambda>c. [c]) ''ABCDEFGHIJKLMNOPQRST'')
      else if u = ''b'' then page ''second'' (map (\<lambda>c. [c]) ''UVWXYZ1234'')
      else page ''leaf'' [])"

definition E61 :: env where
  "E61 = \<lparr>new_URL = Some, puppeteer = web61, internal_error = (\<lambda>n. False)\<rparr>"

lemmas web61_simps = E61_def web61_def page_def settle_def getPageInfo_def pushes_def
  LIMITS_def

text \<open>
  With the limits of the source, the crawl of this web to depth 2 takes eleven turns:
  the start page alone, then ten batches of five. Before the last batch the count is
  46, below the budget of 50, so the batch is fetched and the count becomes 51.
\<close>

lemma overshoot_run:
  "\<exists>st. crawl_run E61 LIMITS ''0'' 2 {} = Returned st \<and> processedCount st = 51"
proof -
  define st0 where "st0 = initial ''0'' {}"
  have s0: "queue st0 = [\<lparr>url = ''0'', depth = 0\<rparr>]" "urlCache st0 = {}" "processedCount st0 = 0"
    by (simp_all add: st0_def initial_def)
  have ok: "\<forall>m. \<not> internal_error E61 m" by (simp add: E61_def)
  have v0: "visited E61 LIMITS ''0'' 2 st0 st0" by (rule visited_start)
  have f0: "fill_batch E61 (CONCURRENT_FETCHES LIMITS) ''0'' 2
      ([\<lparr>url = ''0'', depth = 0\<rparr>])
      ({}) []
    = ([\<lparr>url = ''0'', depth = 0\<rparr>],
       [],
       set (map (\<lambda>c. [c]) ''0''))"
    by (simp add: E61_def LIMITS_def)
  have d0: "([])
      @ discovered E61 (set (map (\<lambda>c. [c]) ''0'')) 2
          (map (settle E61) ([\<lparr>url = ''0'', depth = 0\<rparr>]))
    = map (\<lambda>c. \<lparr>url = [c], depth = 1\<rparr>) ''abcdefghijklmnopqrst''"
    by (simp add: web61_simps)
  have n0: "length (filter (\<lambda>e. is_fulfilled (getPageInfo E61 (url e)))
      ([\<lparr>url = ''0'', depth = 0\<rparr>])) = 1"
    by (simp add: web61_simps)
  have q0: "[\<lparr>url = ''0'', depth = 0\<rparr>] \<noteq> []"
    "[\<lparr>url = ''0'', depth = 0\<rparr>] \<noteq> []"
    "0 < TOTAL_NODES LIMITS"
    by (simp_all add: LIMITS_def)
  obtain st1 where t0: "crawl_step E61 LIMITS ''0'' 2 st0 = Continue st1"
    and "queue st1 = ([])
      @ discovered E61 (set (map (\<lambda>c. [c]) ''0'')) 2
          (map (settle E61) ([\<lparr>url = ''0'', depth = 0\<rparr>]))"
    and "urlCache st1 = set (map (\<lambda>c. [c]) ''0'')"
    and "processedCount st1 = 0 + length (filter (\<lambda>e. is_fulfilled (getPageInfo E61 (url e)))
      ([\<lparr>url = ''0'', depth = 0\<rparr>]))"
    using turn[OF s0 q0(1,3) ok f0 q0(2)] by blast
  then have s1: "queue st1 = map (\<lambda>c. \<lparr>url = [c], depth = 1\<rparr>) ''abcdefghijklmnopqrst''"
    "urlCache st1 = set (map (\<lambda>c. [c]) ''0'')"
    "processedCount st1 = 1"
    unfolding d0 n0 by simp_all
  have v1: "visited E61 LIMITS ''0'' 2 st0 st1" by (rule visited_step[OF v0 t0])
  have f1: "fill_batch E61 (CONCURRENT_FETCHES LIMITS) ''0'' 2
      (map (\<lambda>c. \<lparr>url = [c], depth = 1\<rparr>) ''abcdefghijklmnopqrst'')
      (set (map (\<lambda>c. [c]) ''0'')) []
    = (map (\<lambda>c. \<lparr>url = [c], depth = 1\<rparr>) ''abcde'',
       map (\<lambda>c. \<lparr>url = [c], depth = 1\<rparr>) ''fghijklmnopqrst'',
       set (map (\<lambda>c. [c]) ''edcba0''))"
    by (simp add: E61_def LIMITS_def)
  have d1: "(map (\<lambda>c. \<lparr>url = [c], depth = 1\<rparr>) ''fghijklmnopqrst'')
      @ discovered E61 (set (map (\<lambda>c. [c]) ''edcba0'')) 2
          (map (settle E61) (map (\<lambda>c. \<lparr>url = [c], depth = 1\<rparr>) ''abcde''))
    = map (\<lambda>c. \<lparr>url = [c], depth = 1\<rparr>) ''fghijklmnopqrst'' @ map (\<lambda>c. \<lparr>url = [c], depth = 2\<rparr>) ''ABCDEFGHIJKLMNOPQRSTUVWXYZ1234''"
    by (simp add: web61_simps)
  have n1: "length (filter (\<lambda>e. is_fulfilled (getPageInfo E61 (url e)))
      (map (\<lambda>c. \<lparr>url = [c], depth = 1\<rparr>) ''abcde'')) = 5"
    by (simp add: web61_simps)
  have q1: "map (\<lambda>c. \<lparr>url = [c], depth = 1\<rparr>) ''abcdefghijklmnopqrst'' \<noteq> []"
    "map (\<lambda>c. \<lparr>url = [c], depth = 1\<rparr>) ''abcde'' \<noteq> []"
    "1 < TOTAL_NODES LIMITS"
    by (simp_all add: LIMITS_def)
  obtain st2 where t1: "crawl_step E61 LIMITS ''0'' 2 st1 = Continue st2"
    and "queue st2 = (map (\<lambda>c. \<lparr>url = [c], depth = 1\<rparr>) ''fghijklmnopqrst'')
      @ discovered E61 (set (map (\<lambda>c. [c]) ''edcba0'')) 2
          (map (settle E61) (map (\<lambda>c. \<lparr>url = [c], depth = 1\<rparr>) ''abcde''))"
    and "urlCache st2 = set (map (\<lambda>c. [c]) ''edcba0'')"
    and "processedCount st2 = 1 + length (filter (\<lambda>e. is_fulfilled (getPageInfo E61 (url e)))
      (map (\<lambda>c. \<lparr>url = [c], depth = 1\<rparr>) ''abcde''))"
    using turn[OF s1 q1(1,3) ok f1 q1(2)] by blast
  then have s2: "queue st2 = map (\<lambda>c. \<lparr>url = [c], depth = 1\<rparr>) ''fghijklmnopqrst'' @ map (\<lambda>c. \<lparr>url = [c], depth = 2\<rparr>) ''ABCDEFGHIJKLMNOPQRSTUVWXYZ1234''"
    "urlCache st2 = set (map (\<lambda>c. [c]) ''edcba0'')"
    "processedCount st2 = 6"
    unfolding d1 n1 by simp_all
  have v2: "visited E61 LIMITS ''0'' 2 st0 st2" by (rule visited_step[OF v1 t1])
  have f2: "fill_batch E61 (CONCURRENT_FETCHES LIMITS) ''0'' 2
      (map (\<lambda>c. \<lparr>url = [c], depth = 1\<rparr>) ''fghijklmnopqrst'' @ map (\<lambda>c. \<lparr>url = [c], depth = 2\<rparr>) ''ABCDEFGHIJKLMNOPQRSTUVWXYZ1234'')
      (set (map (\<lambda>c. [c]) ''edcba0'')) []
    = (map (\<lambda>c. \<lparr>url = [c], depth = 1\<rparr>) ''fghij'',
       map (\<lambda>c. \<lparr>url = [c], depth = 1\<rparr>) ''klmnopqrst'' @ map (\<lambda>c. \<lparr>url = [c], depth = 2\<rparr>) ''ABCDEFGHIJKLMNOPQRSTUVWXYZ1234'',
       set (map (\<lambda>c. [c]) ''jihgfedcba0''))"
    by (simp add: E61_def LIMITS_def)
  have d2: "(map (\<lambda>c. \<lparr>url = [c], depth = 1\<rparr>) ''klmnopqrst'' @ map (\<lambda>c. \<lparr>url = [c], depth = 2\<rparr>) ''ABCDEFGHIJKLMNOPQRSTUVWXYZ1234'')
      @ discovered E61 (set (map (\<lambda>c. [c]) ''jihgfedcba0'')) 2
          (map (settle E61) (map (\<lambda>c. \<lparr>url = [c], depth = 1\<rparr>) ''fghij''))
    = map (\<lambda>c. \<lparr>url = [c], depth = 1\<rparr>) ''klmnopqrst'' @ map (\<lambda>c. \<lparr>url = [c], depth = 2\<rparr>) ''ABCDEFGHIJKLMNOPQRSTUVWXYZ1234''"
    by (simp add: web61_simps)
  have n2: "length (filter (\<lambda>e. is_fulfilled (getPageInfo E61 (url e)))
      (map (\<lambda>c. \<lparr>url = [c], depth = 1\<rparr>) ''fghij'')) = 5"
    by (simp add: web61_simps)
  have q2: "map (\<lambda>c. \<lparr>url = [c], depth = 1\<rparr>) ''fghijklmnopqrst'' @ map (\<lambda>c. \<lparr>url = [c], depth = 2\<rparr>) ''ABCDEFGHIJKLMNOPQRSTUVWXYZ1234'' \<noteq> []"
    "map (\<lambda>c. \<lparr>url = [c], depth = 1\<rparr>) ''fghij'' \<noteq> []"
    "6 < TOTAL_NODES LIMITS"
    by (simp_all add: LIMITS_def)
  obtain st3 where t2: "crawl_step E61 LIMITS ''0'' 2 st2 = Continue st3"
    and "queue st3 = (map (\<lambda>c. \<lparr>url = [c], depth = 1\<rparr>) ''klmnopqrst'' @ map (\<lambda>c. \<lparr>url = [c], depth = 2\<rparr>) ''ABCDEFGHIJKLMNOPQRSTUVWXYZ1234'')
      @ discovered E61 (set (map (\<lambda>c. [c]) ''jihgfedcba0'')) 2
          (map (settle E61) (map (\<lambda>c. \<lparr>url = [c], depth = 1\<rparr>) ''fghij''))"
    and "urlCache st3 = set (map (\<lambda>c. [c]) ''jihgfedcba0'')"
    and "processedCount st3 = 6 + length (filter (\<lambda>e. is_fulfilled (getPageInfo E61 (url e)))
      (map (\<lambda>c. \<lparr>url = [c], depth = 1\<rparr>) ''fghij''))"
    using turn[OF s2 q2(1,3) ok f2 q2(2)] by blast
  then have s3: "queue st3 = map (\<lambda>c. \<lparr>url = [c], depth = 1\<rparr>) ''klmnopqrst'' @ map (\<lambda>c. \<lparr>url = [c], depth = 2\<rparr>) ''ABCDEFGHIJKLMNOPQRSTUVWXYZ1234''"
    "urlCache st3 = set (map (\<lambda>c. [c]) ''jihgfedcba0'')"
    "processedCount st3 = 11"
    unfolding d2 n2 by simp_all
  have v3: "visited E61 LIMITS ''0'' 2 st0 st3" by (rule visited_step[OF v2 t2])
  have f3: "fill_batch E61 (CONCURRENT_FETCHES LIMITS) ''0'' 2
      (map (\<lambda>c. \<lparr>url = [c], depth = 1\<rparr>) ''klmnopqrst'' @ map (\<lambda>c. \<lparr>url = [c], depth = 2\<rparr>) ''ABCDEFGHIJKLMNOPQRSTUVWXYZ1234'')
      (set (map (\<lambda>c. [c]) ''jihgfedcba0'')) []
    = (map (\<lambda>c. \<lparr>url = [c], depth = 1\<rparr>) ''klmno'',
       map (\<lambda>c. \<lparr>url = [c], depth = 1\<rparr>) ''pqrst'' @ map (\<lambda>c. \<lparr>url = [c], depth = 2\<rparr>) ''ABCDEFGHIJKLMNOPQRSTUVWXYZ1234'',
       set (map (\<lambda>c. [c]) ''onmlkjihgfedcba0''))"
    by (simp add: E61_def LIMITS_def)
  have d3: "(map (\<lambda>c. \<lparr>url = [c], depth = 1\<rparr>) ''pqrst'' @ map (\<lambda>c. \<lparr>url = [c], depth = 2\<rparr>) ''ABCDEFGHIJKLMNOPQRSTUVWXYZ1234'')
      @ discovered E61 (set (map (\<lambda>c. [c]) ''onmlkjihgfedcba0'')) 2
          (map (settle E61) (map (\<lambda>c. \<lparr>url = [c], depth = 1\<rparr>) ''klmno''))
    = map (\<lambda>c. \<lparr>url = [c], depth = 1\<rparr>) ''pqrst'' @ map (\<lambda>c. \<lparr>url = [c], depth = 2\<rparr>) ''ABCDEFGHIJKLMNOPQRSTUVWXYZ1234''"
    by (simp add: web61_simps)
  have n3: "length (filter (\<lambda>e. is_fulfilled (getPageInfo E61 (url e)))
      (map (\<lambda>c. \<lparr>url = [c], depth = 1\<rparr>) ''klmno'')) = 5"
    by (simp add: web61_simps)
  have q3: "map (\<lambda>c. \<lparr>url = [c], depth = 1\<rparr>) ''klmnopqrst'' @ map (\<lambda>c. \<lparr>url = [c], depth = 2\<rparr>) ''ABCDEFGHIJKLMNOPQRSTUVWXYZ1234'' \<noteq> []"
    "map (\<lambda>c. \<lparr>url = [c], depth = 1\<rparr>) ''klmno'' \<noteq> []"
    "11 < TOTAL_NODES LIMITS"
    by (simp_all add: LIMITS_def)
  obtain st4 where t3: "crawl_step E61 LIMITS ''0'' 2 st3 = Continue st4"
    and "queue st4 = (map (\<lambda>c. \<lparr>url = [c], depth = 1\<rparr>) ''pqrst'' @ map (\<lambda>c. \<lparr>url = [c], depth = 2\<rparr>) ''ABCDEFGHIJKLMNOPQRSTUVWXYZ1234'')
      @ discovered E61 (set (map (\<lambda>c. [c]) ''onmlkjihgfedcba0'')) 2
          (map (settle E61) (map (\<lambda>c. \<lparr>url = [c], depth = 1\<rparr>) ''klmno''))"
    and "urlCache st4 = set (map (\<lambda>c. [c]) ''onmlkjihgfedcba0'')"
    and "processedCount st4 = 11 + length (filter (\<lambda>e. is_fulfilled (getPageInfo E61 (url e)))
      (map (\<lambda>c. \<lparr>url = [c], depth = 1\<rparr>) ''klmno''))"
    using turn[OF s3 q3(1,3) ok f3 q3(2)] by blast
  then have s4: "queue st4 = map (\<lambda>c. \<lparr>url = [c], depth = 1\<rparr>) ''pqrst'' @ map (\<lambda>c. \<lparr>url = [c], depth = 2\<rparr>) ''ABCDEFGHIJKLMNOPQRSTUVWXYZ1234''"
    "urlCache st4 = set (map (\<lambda>c. [c]) ''onmlkjihgfedcba0'')"
    "processedCount st4 = 16"
    unfolding d3 n3 by simp_all
  have v4: "visited E61 LIMITS ''0'' 2 st0 st4" by (rule visited_step[OF v3 t3])
  have f4: "fill_batch E61 (CONCURRENT_FETCHES LIMITS) ''0'' 2
      (map (\<lambda>c. \<lparr>url = [c], depth = 1\<rparr>) ''pqrst'' @ map (\<lambda>c. \<lparr>url = [c], depth = 2\<rparr>) ''ABCDEFGHIJKLMNOPQRSTUVWXYZ1234'')
      (set (map (\<lambda>c. [c]) ''onmlkjihgfedcba0'')) []
    = (map (\<lambda>c. \<lparr>url = [c], depth = 1\<rparr>) ''pqrst'',
       map (\<lambda>c. \<lparr>url = [c], depth = 2\<rparr>) ''ABCDEFGHIJKLMNOPQRSTUVWXYZ1234'',
       set (map (\<lambda>c. [c]) ''tsrqponmlkjihgfedcba0''))"
    by (simp add: E61_def LIMITS_def)
  have d4: "(map (\<lambda>c. \<lparr>url = [c], depth = 2\<rparr>) ''ABCDEFGHIJKLMNOPQRSTUVWXYZ1234'')
      @ discovered E61 (set (map (\<lambda>c. [c]) ''tsrqponmlkjihgfedcba0'')) 2
          (map (settle E61) (map (\<lambda>c. \<lparr>url = [c], depth = 1\<rparr>) ''pqrst''))
    = map (\<lambda>c. \<lparr>url = [c], depth = 2\<rparr>) ''ABCDEFGHIJKLMNOPQRSTUVWXYZ1234''"
    by (simp add: web61_simps)
  have n4: "length (filter (\<lambda>e. is_fulfilled (getPageInfo E61 (url e)))
      (map (\<lambda>c. \<lparr>url = [c], depth = 1\<rparr>) ''pqrst'')) = 5"
    by (simp add: web61_simps)
  have q4: "map (\<lambda>c. \<lparr>url = [c], depth = 1\<rparr>) ''pqrst'' @ map (\<lambda>c. \<lparr>url = [c], depth = 2\<rparr>) ''ABCDEFGHIJKLMNOPQRSTUVWXYZ1234'' \<noteq> []"
    "map (\<lambda>c. \<lparr>url = [c], depth = 1\<rparr>) ''pqrst'' \<noteq> []"
    "16 < TOTAL_NODES LIMITS"
    by (simp_all add: LIMITS_def)
  obtain st5 where t4: "crawl_step E61 LIMITS ''0'' 2 st4 = Continue st5"
    and "queue st5 = (map (\<lambda>c. \<lparr>url = [c], depth = 2\<rparr>) ''ABCDEFGHIJKLMNOPQRSTUVWXYZ1234'')
      @ discovered E61 (set (map (\<lambda>c. [c]) ''tsrqponmlkjihgfedcba0'')) 2
          (map (settle E61) (map (\<lambda>c. \<lparr>url = [c], depth = 1\<rparr>) ''pqrst''))"
    and "urlCache st5 = set (map (\<lambda>c. [c]) ''tsrqponmlkjihgfedcba0'')"
    and "processedCount st5 = 16 + length (filter (\<lambda>e. is_fulfilled (getPageInfo E61 (url e)))
      (map (\<lambda>c. \<lparr>url = [c], depth = 1\<rparr>) ''pqrst''))"
    using turn[OF s4 q4(1,3) ok f4 q4(2)] by blast
  then have s5: "queue st5 = map (\<lambda>c. \<lparr>url = [c], depth = 2\<rparr>) ''ABCDEFGHIJKLMNOPQRSTUVWXYZ1234''"
    "urlCache st5 = set (map (\<lambda>c. [c]) ''tsrqponmlkjihgfedcba0'')"
    "processedCount st5 = 21"
    unfolding d4 n4 by simp_all
  have v5: "visited E61 LIMITS ''0'' 2 st0 st5" by (rule visited_step[OF v4 t4])
  have f5: "fill_batch E61 (CONCURRENT_FETCHES LIMITS) ''0'' 2
      (map (\<lambda>c. \<lparr>url = [c], depth = 2\<rparr>) ''ABCDEFGHIJKLMNOPQRSTUVWXYZ1234'')
      (set (map (\<lambda>c. [c]) ''tsrqponmlkjihgfedcba0'')) []
    = (map (\<lambda>c. \<lparr>url = [c], depth = 2\<rparr>) ''ABCDE'',
       map (\<lambda>c. \<lparr>url = [c], depth = 2\<rparr>) ''FGHIJKLMNOPQRSTUVWXYZ1234'',
       set (map (\<lambda>c. [c]) ''EDCBAtsrqponmlkjihgfedcba0''))"
    by (simp add: E61_def LIMITS_def)
  have d5: "(map (\<lambda>c. \<lparr>url = [c], depth = 2\<rparr>) ''FGHIJKLMNOPQRSTUVWXYZ1234'')
      @ discovered E61 (set (map (\<lambda>c. [c]) ''EDCBAtsrqponmlkjihgfedcba0'')) 2
          (map (settle E61) (map (\<lambda>c. \<lparr>url = [c], depth = 2\<rparr>) ''ABCDE''))
    = map (\<lambda>c. \<lparr>url = [c], depth = 2\<rparr>) ''FGHIJKLMNOPQRSTUVWXYZ1234''"
    by (simp add: web61_simps)
  have n5: "length (filter (\<lambda>e. is_fulfilled (getPageInfo E61 (url e)))
      (map (\<lambda>c. \<lparr>url = [c], depth = 2\<rparr>) ''ABCDE'')) = 5"
    by (simp add: web61_simps)
  have q5: "map (\<lambda>c. \<lparr>url = [c], depth = 2\<rparr>) ''ABCDEFGHIJKLMNOPQRSTUVWXYZ1234'' \<noteq> []"
    "map (\<lambda>c. \<lparr>url = [c], depth = 2\<rparr>) ''ABCDE'' \<noteq> []"
    "21 < TOTAL_NODES LIMITS"
    by (simp_all add: LIMITS_def)
  obtain st6 where t5: "crawl_step E61 LIMITS ''0'' 2 st5 = Continue st6"
    and "queue st6 = (map (\<lambda>c. \<lparr>url = [c], depth = 2\<rparr>) ''FGHIJKLMNOPQRSTUVWXYZ1234'')
      @ discovered E61 (set (map (\<lambda>c. [c]) ''EDCBAtsrqponmlkjihgfedcba0'')) 2
          (map (settle E61) (map (\<lambda>c. \<lparr>url = [c], depth = 2\<rparr>) ''ABCDE''))"
    and "urlCache st6 = set (map (\<lambda>c. [c]) ''EDCBAtsrqponmlkjihgfedcba0'')"
    and "processedCount st6 = 21 + length (filter (\<lambda>e. is_fulfilled (getPageInfo E61 (url e)))
      (map (\<lambda>c. \<lparr>url = [c], depth = 2\<rparr>) ''ABCDE''))"
    using turn[OF s5 q5(1,3) ok f5 q5(2)] by blast
  then have s6: "queue st6 = map (\<lambda>c. \<lparr>url = [c], depth = 2\<rparr>) ''FGHIJKLMNOPQRSTUVWXYZ1234''"
    "urlCache st6 = set (map (\<lambda>c. [c]) ''EDCBAtsrqponmlkjihgfedcba0'')"
    "processedCount st6 = 26"
    unfolding d5 n5 by simp_all
  have v6: "visited E61 LIMITS ''0'' 2 st0 st6" by (rule visited_step[OF v5 t5])
  have f6: "fill_batch E61 (CONCURRENT_FETCHES LIMITS) ''0'' 2
      (map (\<lambda>c. \<lparr>url = [c], depth = 2\<rparr>) ''FGHIJKLMNOPQRSTUVWXYZ1234'')
      (set (map (\<lambda>c. [c]) ''EDCBAtsrqponmlkjihgfedcba0'')) []
    = (map (\<lambda>c. \<lparr>url = [c], depth = 2\<rparr>) ''FGHIJ'',
       map (\<lambda>c. \<lparr>url = [c], depth = 2\<rparr>) ''KLMNOPQRSTUVWXYZ1234'',
       set (map (\<lambda>c. [c]) ''JIHGFEDCBAtsrqponmlkjihgfedcba0''))"
    by (simp add: E61_def LIMITS_def)
  have d6: "(map (\<lambda>c. \<lparr>url = [c], depth = 2\<rparr>) ''KLMNOPQRSTUVWXYZ1234'')
      @ discovered E61 (set (map (\<lambda>c. [c]) ''JIHGFEDCBAtsrqponmlkjihgfedcba0'')) 2
          (map (settle E61) (map (\<lambda>c. \<lparr>url = [c], depth = 2\<rparr>) ''FGHIJ''))
    = map (\<lambda>c. \<lparr>url = [c], depth = 2\<rparr>) ''KLMNOPQRSTUVWXYZ1234''"
    by (simp add: web61_simps)
  have n6: "length (filter (\<lambda>e. is_fulfilled (getPageInfo E61 (url e)))
      (map (\<lambda>c. \<lparr>url = [c], depth = 2\<rparr>) ''FGHIJ'')) = 5"
    by (simp add: web61_simps)
  have q6: "map (\<lambda>c. \<lparr>url = [c], depth = 2\<rparr>) ''FGHIJKLMNOPQRSTUVWXYZ1234'' \<noteq> []"
    "map (\<lambda>c. \<lparr>url = [c], depth = 2\<rparr>) ''FGHIJ'' \<noteq> []"
    "26 < TOTAL_NODES LIMITS"
    by (simp_all add: LIMITS_def)
  obtain st7 where t6: "crawl_step E61 LIMITS ''0'' 2 st6 = Continue st7"
    and "queue st7 = (map (\<lambda>c. \<lparr>url = [c], depth = 2\<rparr>) ''KLMNOPQRSTUVWXYZ1234'')
      @ discovered E61 (set (map (\<lambda>c. [c]) ''JIHGFEDCBAtsrqponmlkjihgfedcba0'')) 2
          (map (settle E61) (map (\<lambda>c. \<lparr>url = [c], depth = 2\<rparr>) ''FGHIJ''))"
    and "urlCache st7 = set (map (\<lambda>c. [c]) ''JIHGFEDCBAtsrqponmlkjihgfedcba0'')"
    and "processedCount st7 = 26 + length (filter (\<lambda>e. is_fulfilled (getPageInfo E61 (url e)))
      (map (\<lambda>c. \<lparr>url = [c], depth = 2\<rparr>) ''FGHIJ''))"
    using turn[OF s6 q6(1,3) ok f6 q6(2)] by blast
  then have s7: "queue st7 = map (\<lambda>c. \<lparr>url = [c], depth = 2\<rparr>) ''KLMNOPQRSTUVWXYZ1234''"
    "urlCache st7 = set (map (\<lambda>c. [c]) ''JIHGFEDCBAtsrqponmlkjihgfedcba0'')"
    "processedCount st7 = 31"
    unfolding d6 n6 by simp_all
  have v7: "visited E61 LIMITS ''0'' 2 st0 st7" by (rule visited_step[OF v6 t6])
  have f7: "fill_batch E61 (CONCURRENT_FETCHES LIMITS) ''0'' 2
      (map (\<lambda>c. \<lparr>url = [c], depth = 2\<rparr>) ''KLMNOPQRSTUVWXYZ1234'')
      (set (map (\<lambda>c. [c]) ''JIHGFEDCBAtsrqponmlkjihgfedcba0'')) []
    = (map (\<lambda>c. \<lparr>url = [c], depth = 2\<rparr>) ''KLMNO'',
       map (\<lambda>c. \<lparr>url = [c], depth = 2\<rparr>) ''PQRSTUVWXYZ1234'',
       set (map (\<lambda>c. [c]) ''ONMLKJIHGFEDCBAtsrqponmlkjihgfedcba0''))"
    by (simp add: E61_def LIMITS_def)
  have d7: "(map (\<lambda>c. \<lparr>url = [c], depth = 2\<rparr>) ''PQRSTUVWXYZ1234'')
      @ discovered E61 (set (map (\<lambda>c. [c]) ''ONMLKJIHGFEDCBAtsrqponmlkjihgfedcba0'')) 2
          (map (settle E61) (map (\<lambda>c. \<lparr>url = [c], depth = 2\<rparr>) ''KLMNO''))
    = map (\<lambda>c. \<lparr>url = [c], depth = 2\<rparr>) ''PQRSTUVWXYZ1234''"
    by (simp add: web61_simps)
  have n7: "length (filter (\<lambda>e. is_fulfilled (getPageInfo E61 (url e)))
      (map (\<lambda>c. \<lparr>url = [c], depth = 2\<rparr>) ''KLMNO'')) = 5"
    by (simp add: web61_simps)
  have q7: "map (\<lambda>c. \<lparr>url = [c], depth = 2\<rparr>) ''KLMNOPQRSTUVWXYZ1234'' \<noteq> []"
    "map (\<lambda>c. \<lparr>url = [c], depth = 2\<rparr>) ''KLMNO'' \<noteq> []"
    "31 < TOTAL_NODES LIMITS"
    by (simp_all add: LIMITS_def)
  obtain st8 where t7: "crawl_step E61 LIMITS ''0'' 2 st7 = Continue st8"
    and "queue st8 = (map (\<lambda>c. \<lparr>url = [c], depth = 2\<rparr>) ''PQRSTUVWXYZ1234'')
      @ discovered E61 (set (map (\<lambda>c. [c]) ''ONMLKJIHGFEDCBAtsrqponmlkjihgfedcba0'')) 2
          (map (settle E61) (map (\<lambda>c. \<lparr>url = [c], depth = 2\<rparr>) ''KLMNO''))"
    and "urlCache st8 = set (map (\<lambda>c. [c]) ''ONMLKJIHGFEDCBAtsrqponmlkjihgfedcba0'')"
    and "processedCount st8 = 31 + length (filter (\<lambda>e. is_fulfilled (getPageInfo E61 (url e)))
      (map (\<lambda>c. \<lparr>url = [c], depth = 2\<rparr>) ''KLMNO''))"
    using turn[OF s7 q7(1,3) ok f7 q7(2)] by blast
  then have s8: "queue st8 = map (\<lambda>c. \<lparr>url = [c], depth = 2\<rparr>) ''PQRSTUVWXYZ1234''"
    "urlCache st8 = set (map (\<lambda>c. [c]) ''ONMLKJIHGFEDCBAtsrqponmlkjihgfedcba0'')"
    "processedCount st8 = 36"
    unfolding d7 n7 by simp_all
  have v8: "visited E61 LIMITS ''0'' 2 st0 st8" by (rule visited_step[OF v7 t7])
  have f8: "fill_batch E61 (CONCURRENT_FETCHES LIMITS) ''0'' 2
      (map (\<lambda>c. \<lparr>url = [c], depth = 2\<rparr>) ''PQRSTUVWXYZ1234'')
      (set (map (\<lambda>c. [c]) ''ONMLKJIHGFEDCBAtsrqponmlkjihgfedcba0'')) []
    = (map (\<lambda>c. \<lparr>url = [c], depth = 2\<rparr>) ''PQRST'',
       map (\<lambda>c. \<lparr>url = [c], depth = 2\<rparr>) ''UVWXYZ1234'',
       set (map (\<lambda>c. [c]) ''TSRQPONMLKJIHGFEDCBAtsrqponmlkjihgfedcba0''))"
    by (simp add: E61_def LIMITS_def)
  have d8: "(map (\<lambda>c. \<lparr>url = [c], depth = 2\<rparr>) ''UVWXYZ1234'')
      @ discovered E61 (set (map (\<lambda>c. [c]) ''TSRQPONMLKJIHGFEDCBAtsrqponmlkjihgfedcba0'')) 2
          (map (settle E61) (map (\<lambda>c. \<lparr>url = [c], depth = 2\<rparr>) ''PQRST''))
    = map (\<lambda>c. \<lparr>url = [c], depth = 2\<rparr>) ''UVWXYZ1234''"
    by (simp add: web61_simps)
  have n8: "length (filter (\<lambda>e. is_fulfilled (getPageInfo E61 (url e)))
      (map (\<lambda>c. \<lparr>url = [c], depth = 2\<rparr>) ''PQRST'')) = 5"
    by (simp add: web61_simps)
  have q8: "map (\<lambda>c. \<lparr>url = [c], depth = 2\<rparr>) ''PQRSTUVWXYZ1234'' \<noteq> []"
    "map (\<lambda>c. \<lparr>url = [c], depth = 2\<rparr>) ''PQRST'' \<noteq> []"
    "36 < TOTAL_NODES LIMITS"
    by (simp_all add: LIMITS_def)
  obtain st9 where t8: "crawl_step E61 LIMITS ''0'' 2 st8 = Continue st9"
    and "queue st9 = (map (\<lambda>c. \<lparr>url = [c], depth = 2\<rparr>) ''UVWXYZ1234'')
      @ discovered E61 (set (map (\<lambda>c. [c]) ''TSRQPONMLKJIHGFEDCBAtsrqponmlkjihgfedcba0'')) 2
          (map (settle E61) (map (\<lambda>c. \<lparr>url = [c], depth = 2\<rparr>) ''PQRST''))"
    and "urlCache st9 = set (map (\<lambda>c. [c]) ''TSRQPONMLKJIHGFEDCBAtsrqponmlkjihgfedcba0'')"
    and "processedCount st9 = 36 + length (filter (\<lambda>e. is_fulfilled (getPageInfo E61 (url e)))
      (map (\<lambda>c. \<lparr>url = [c], depth = 2\<rparr>) ''PQRST''))"
    using turn[OF s8 q8(1,3) ok f8 q8(2)] by blast
  then have s9: "queue st9 = map (\<lambda>c. \<lparr>url = [c], depth = 2\<rparr>) ''UVWXYZ1234''"
    "urlCache st9 = set (map (\<lambda>c. [c]) ''TSRQPONMLKJIHGFEDCBAtsrqponmlkjihgfedcba0'')"
    "processedCount st9 = 41"
    unfolding d8 n8 by simp_all
  have v9: "visited E61 LIMITS ''0'' 2 st0 st9" by (rule visited_step[OF v8 t8])
  have f9: "fill_batch E61 (CONCURRENT_FETCHES LIMITS) ''0'' 2
      (map (\<lambda>c. \<lparr>url = [c], depth = 2\<rparr>) ''UVWXYZ1234'')
      (set (map (\<lambda>c. [c]) ''TSRQPONMLKJIHGFEDCBAtsrqponmlkjihgfedcba0'')) []
    = (map (\<lambda>c. \<lparr>url = [c], depth = 2\<rparr>) ''UVWXY'',
       map (\<lambda>c. \<lparr>url = [c], depth = 2\<rparr>) ''Z1234'',
       set (map (\<lambda>c. [c]) ''YXWVUTSRQPONMLKJIHGFEDCBAtsrqponmlkjihgfedcba0''))"
    by (simp add: E61_def LIMITS_def)
  have d9: "(map (\<lambda>c. \<lparr>url = [c], depth = 2\<rparr>) ''Z1234'')
      @ discovered E61 (set (map (\<lambda>c. [c]) ''YXWVUTSRQPONMLKJIHGFEDCBAtsrqponmlkjihgfedcba0'')) 2
          (map (settle E61) (map (\<lambda>c. \<lparr>url = [c], depth = 2\<rparr>) ''UVWXY''))
    = map (\<lambda>c. \<lparr>url = [c], depth = 2\<rparr>) ''Z1234''"
    by (simp add: web61_simps)
  have n9: "length (filter (\<lambda>e. is_fulfilled (getPageInfo E61 (url e)))
      (map (\<lambda>c. \<lparr>url = [c], depth = 2\<rparr>) ''UVWXY'')) = 5"
    by (simp add: web61_simps)
  have q9: "map (\<lambda>c. \<lparr>url = [c], depth = 2\<rparr>) ''UVWXYZ1234'' \<noteq> []"
    "map (\<lambda>c. \<lparr>url = [c], depth = 2\<rparr>) ''UVWXY'' \<noteq> []"
    "41 < TOTAL_NODES LIMITS"
    by (simp_all add: LIMITS_def)
  obtain st10 where t9: "crawl_step E61 LIMITS ''0'' 2 st9 = Continue st10"
    and "queue st10 = (map (\<lambda>c. \<lparr>url = [c], depth = 2\<rparr>) ''Z1234'')
      @ discovered E61 (set (map (\<lambda>c. [c]) ''YXWVUTSRQPONMLKJIHGFEDCBAtsrqponmlkjihgfedcba0'')) 2
          (map (settle E61) (map (\<lambda>c. \<lparr>url = [c], depth = 2\<rparr>) ''UVWXY''))"
    and "urlCache st10 = set (map (\<lambda>c. [c]) ''YXWVUTSRQPONMLKJIHGFEDCBAtsrqponmlkjihgfedcba0'')"
    and "processedCount st10 = 41 + length (filter (\<lambda>e. is_fulfilled (getPageInfo E61 (url e)))
      (map (\<lambda>c. \<lparr>url = [c], depth = 2\<rparr>) ''UVWXY''))"
    using turn[OF s9 q9(1,3) ok f9 q9(2)] by blast
  then have s10: "queue st10 = map (\<lambda>c. \<lparr>url = [c], depth = 2\<rparr>) ''Z1234''"
    "urlCache st10 = set (map (\<lambda>c. [c]) ''YXWVUTSRQPONMLKJIHGFEDCBAtsrqponmlkjihgfedcba0'')"
    "processedCount st10 = 46"
    unfolding d9 n9 by simp_all
  have v10: "visited E61 LIMITS ''0'' 2 st0 st10" by (rule visited_step[OF v9 t9])
  have f10: "fill_batch E61 (CONCURRENT_FETCHES LIMITS) ''0'' 2
      (map (\<lambda>c. \<lparr>url = [c], depth = 2\<rparr>) ''Z1234'')
      (set (map (\<lambda>c. [c]) ''YXWVUTSRQPONMLKJIHGFEDCBAtsrqponmlkjihgfedcba0'')) []
    = (map (\<lambda>c. \<lparr>url = [c], depth = 2\<rparr>) ''Z1234'',
       [],
       set (map (\<lambda>c. [c]) ''4321ZYXWVUTSRQPONMLKJIHGFEDCBAtsrqponmlkjihgfedcba0''))"
    by (simp add: E61_def LIMITS_def)
  have d10: "([])
      @ discovered E61 (set (map (\<lambda>c. [c]) ''4321ZYXWVUTSRQPONMLKJIHGFEDCBAtsrqponmlkjihgfedcba0'')) 2
          (map (settle E61) (map (\<lambda>c. \<lparr>url = [c], depth = 2\<rparr>) ''Z1234''))
    = []"
    by (simp add: web61_simps)
  have n10: "length (filter (\<lambda>e. is_fulfilled (getPageInfo E61 (url e)))
      (map (\<lambda>c. \<lparr>url = [c], depth = 2\<rparr>) ''Z1234'')) = 5"
    by (simp add: web61_simps)
  have q10: "map (\<lambda>c. \<lparr>url = [c], depth = 2\<rparr>) ''Z1234'' \<noteq> []"
    "map (\<lambda>c. \<lparr>url = [c], depth = 2\<rparr>) ''Z1234'' \<noteq> []"
    "46 < TOTAL_NODES LIMITS"
    by (simp_all add: LIMITS_def)
  obtain st11 where t10: "crawl_step E61 LIMITS ''0'' 2 st10 = Continue st11"
    and "queue st11 = ([])
      @ discovered E61 (set (map (\<lambda>c. [c]) ''4321ZYXWVUTSRQPONMLKJIHGFEDCBAtsrqponmlkjihgfedcba0'')) 2
          (map (settle E61) (map (\<lambda>c. \<lparr>url = [c], depth = 2\<rparr>) ''Z1234''))"
    and "urlCache st11 = set (map (\<lambda>c. [c]) ''4321ZYXWVUTSRQPONMLKJIHGFEDCBAtsrqponmlkjihgfedcba0'')"
    and "processedCount st11 = 46 + length (filter (\<lambda>e. is_fulfilled (getPageInfo E61 (url e)))
      (map (\<lambda>c. \<lparr>url = [c], depth = 2\<rparr>) ''Z1234''))"
    using turn[OF s10 q10(1,3) ok f10 q10(2)] by blast
  then have s11: "queue st11 = []"
    "urlCache st11 = set (map (\<lambda>c. [c]) ''4321ZYXWVUTSRQPONMLKJIHGFEDCBAtsrqponmlkjihgfedcba0'')"
    "processedCount st11 = 51"
    unfolding d10 n10 by simp_all
  have v11: "visited E61 LIMITS ''0'' 2 st0 st11" by (rule visited_step[OF v10 t10])
  have "crawl_step E61 LIMITS ''0'' 2 st11 = Break st11"
    using s11 by (simp add: crawl_step_def)
  then have "crawl_loop E61 LIMITS ''0'' 2 st11 = Returned st11"
    by (subst crawl_loop.simps) simp
  with visited_crawl_loop[OF v11] have "crawl_run E61 LIMITS ''0'' 2 {} = Returned st11"
    by (simp add: crawl_run_def st0_def)
  with s11 show ?thesis by simp
qed

text \<open>
  Claim C1 and the code. The claim bounds the number of processed results by
  \<open>TOTAL_NODES\<close>, which is 50 in the source. On the web above the crawl processes 51
  results and returns a graph of 51 nodes: the budget is only tested between batches.
\<close>

theorem budget_exceeded_by_last_batch:
  "TOTAL_NODES LIMITS = 50
   \<and> processedCount (final_state (crawl_run E61 LIMITS ''0'' 2 {})) = 51
   \<and> length (gnodes (crawlKHops E61 LIMITS ''0'' 2 {})) = 51"
proof -
  from overshoot_run obtain st where
    r: "crawl_run E61 LIMITS ''0'' 2 {} = Returned st" and n: "processedCount st = 51"
    by blast
  have "idempotent E61" by (simp add: idempotent_def E61_def)
  moreover have "0 < CONCURRENT_FETCHES LIMITS" by (simp add: LIMITS_def)
  ultimately have "length (gnodes (crawlKHops E61 LIMITS ''0'' 2 {})) = processedCount st"
    using r by (rule nodes_count)
  with r n show ?thesis by (simp add: LIMITS_def)
qed

section \<open>The bound that the loop does keep\<close>

text \<open>
  Claim C10. With at least one fetch per batch allowed, the number of processed results
  never exceeds \<open>TOTAL_NODES + CONCURRENT_FETCHES - 1\<close>, in no state the loop reaches
  and not when the crawl ends, and neither does the number of nodes of the returned
  graph: the outer loop tests the budget before it fills a batch, so the count is below
  \<open>TOTAL_NODES\<close> when a batch of at most \<open>CONCURRENT_FETCHES\<close> results is added. With the
  limits of the source the bound is 54.
\<close>

theorem processed_within_budget_plus_batch:
  assumes "0 < CONCURRENT_FETCHES L"
  shows "(\<forall>st. visited E L startUrl k (initial startUrl cache) st \<longrightarrow>
            processedCount st \<le> TOTAL_NODES L + CONCURRENT_FETCHES L - 1)
       \<and> processedCount (final_state (crawl_run E L startUrl k cache))
           \<le> TOTAL_NODES L + CONCURRENT_FETCHES L - 1
       \<and> length (gnodes (crawlKHops E L startUrl k cache))
           \<le> TOTAL_NODES L + CONCURRENT_FETCHES L - 1"
proof -
  let ?r = "crawl_run E L startUrl k cache"
  have v: "processedCount st \<le> TOTAL_NODES L + CONCURRENT_FETCHES L - 1"
    if "visited E L startUrl k (initial startUrl cache) st" for st
    using within_budget_visited[OF assms that] by (simp add: within_budget_def) linarith
  from within_budget_final[OF assms, of E startUrl k cache]
  have w: "processedCount (final_state ?r) + 1 \<le> TOTAL_NODES L + CONCURRENT_FETCHES L"
    "length (nodes (final_state ?r)) \<le> processedCount (final_state ?r)"
    by (simp_all add: within_budget_def)
  have "length (gnodes (crawlKHops E L startUrl k cache)) \<le> length (nodes (final_state ?r))"
    by (cases ?r) (simp_all add: crawlKHops_def graph_of_def)
  with w have "processedCount (final_state ?r) \<le> TOTAL_NODES L + CONCURRENT_FETCHES L - 1"
    "length (gnodes (crawlKHops E L startUrl k cache))
       \<le> TOTAL_NODES L + CONCURRENT_FETCHES L - 1"
    by linarith+
  with v show ?thesis by blast
qed

text \<open>On the web of 61 pages the count ends at 51, within the bound of 54.\<close>

theorem processed_within_budget_plus_batch_witness:
  "0 < CONCURRENT_FETCHES LIMITS
   \<and> visited E61 LIMITS ''0'' 2 (initial ''0'' {}) (initial ''0'' {})
   \<and> processedCount (final_state (crawl_run E61 LIMITS ''0'' 2 {})) = 51
   \<and> TOTAL_NODES LIMITS + CONCURRENT_FETCHES LIMITS - 1 = 54
   \<and> length (gnodes (crawlKHops E61 LIMITS ''0'' 2 {})) \<le> 54"
proof -
  have c: "0 < CONCURRENT_FETCHES LIMITS" by (simp add: LIMITS_def)
  from overshoot_run obtain st where
    "crawl_run E61 LIMITS ''0'' 2 {} = Returned st" "processedCount st = 51"
    by blast
  with processed_within_budget_plus_batch [OF c, of E61 "''0''" 2 "{}"] c
    visited_start [of E61 LIMITS "''0''" 2 "initial ''0'' {}"]
  show ?thesis by (simp add: LIMITS_def)
qed

end
